theory Spec2Isabelle
  imports Complex_Main
begin

section \<open>The secure API connection manager (src/secureApi.js)\<close>

text \<open>
  \<open>SecureApi\<close> keeps a list of candidate tokens, tries them one after the other against
  the node and reports \<open>connecting\<close>, \<open>connected\<close> and \<open>disconnected\<close>. The class is
  written with promises; the embedding below runs one promise chain to its settlement.
  A promise that settles is a value of \<open>rejection + 'a\<close> (\<open>Inl\<close>: rejected) paired with
  the state it leaves; a chain that has not settled after \<open>fuel\<close> nested invocations
  is \<open>None\<close>. Everything the class reads from outside (the transport, the ping, the
  signer, the node-status call, the random generator, timers, the store) is answered
  by a \<open>world\<close>, indexed by the number of collaborator calls made so far.
  A private method \<open>_name\<close> is \<open>name\<close> here; \<open>_connect\<close> is \<open>priv_connect\<close>,
  since \<open>connect\<close> is the public method. The assignment to \<open>transport.url\<close>,
  the debug log and the \<open>close\<close> listener are left out: nothing below reads them.
  Every token is a string and the listeners of the three events return normally: no
  exception is thrown outside a promise, except by \<open>store.set\<close>.
\<close>

subsection \<open>Data\<close>

text \<open>An entry of \<open>this._tokens\<close>: \<open>{ value, tried }\<close>.\<close>

record candidate =
  token_value :: string
  tried :: bool

text \<open>The three events the class emits.\<close>

datatype event = Connecting | Connected | Disconnected

text \<open>
  What a promise is rejected with (or what is thrown): a falsy value, or an error
  object, of which the code only ever reads \<open>error.type\<close>.
\<close>

datatype rejection = Falsy | Err string

text \<open>
  The instance fields \<open>_isConnecting\<close>, \<open>_needsToken\<close>, \<open>_tokens\<close>, together with
  the parts of the collaborators the class reads back or writes:
  \<open>providerToken\<close> is \<open>this.provider.token\<close> (read through \<open>secureToken\<close>),
  \<open>sysuiToken\<close> is the entry of that name in the persistent store,
  \<open>emitted\<close> the events passed to \<open>this.emit\<close>, \<open>pushed\<close> the arguments of
  \<open>this.provider.updateToken\<close>, \<open>timers\<close> the delays handed to
  \<open>window.setTimeout\<close>, \<open>errors\<close> what \<open>log.error\<close> and \<open>console.error\<close>
  were given, \<open>clock\<close> the value of \<open>Date.now()\<close>, and \<open>calls\<close> the number of
  collaborator calls so far.
\<close>

record secure_api =
  isConnecting :: bool
  needsToken :: bool
  tokens :: "candidate list"
  providerToken :: "string option"
  sysuiToken :: "string option"
  emitted :: "event list"
  pushed :: "string list"
  timers :: "int list"
  errors :: "rejection list"
  clock :: nat
  calls :: nat

text \<open>
  The outside world. Each answer is indexed by the value of \<open>calls\<close> at the moment
  of the call, so that a world may answer every call differently.
  \<^item> \<open>providerConnect k t\<close>: how \<open>this.provider.connect()\<close> settles when the
    transport holds token \<open>t\<close>;
  \<^item> \<open>fetchPing k\<close>: how the \<open>HEAD /api/ping\<close> request settles (\<open>Inr\<close>: the status);
  \<^item> \<open>generateToken k\<close>: how \<open>this.signer.generateAuthorizationToken()\<close> settles;
  \<^item> \<open>netChain k\<close>: how \<open>this.parity.netChain()\<close> settles;
  \<^item> \<open>random k\<close>: the value of \<open>Math.random()\<close>;
  \<^item> \<open>retryTimeout k\<close>: the value of \<open>this.transport.retryTimeout\<close>;
  \<^item> \<open>storeSet k\<close>: what \<open>store.set\<close> throws, if it throws;
  \<^item> \<open>took k\<close>: the milliseconds call \<open>k\<close> takes to settle; for a timer, the
    milliseconds it fires late. Both are naturals: the clock does not run backwards
    and a timer does not fire early.
\<close>

record world =
  providerConnect :: "nat \<Rightarrow> string \<Rightarrow> rejection + unit"
  fetchPing :: "nat \<Rightarrow> rejection + nat"
  generateToken :: "nat \<Rightarrow> rejection + string"
  netChain :: "nat \<Rightarrow> rejection + unit"
  random :: "nat \<Rightarrow> real"
  retryTimeout :: "nat \<Rightarrow> int"
  storeSet :: "nat \<Rightarrow> rejection option"
  took :: "nat \<Rightarrow> nat"

text \<open>What \<open>connect()\<close> hands back: \<open>undefined\<close> at once, or a promise, here settled.\<close>

datatype connect_result = Returned | Settled "rejection + unit"

subsection \<open>Helpers\<close>

text \<open>The character class \<open>[a-zA-Z0-9]\<close>.\<close>

definition alnum :: "char \<Rightarrow> bool" where
  "alnum c =
     (let n = (of_char c :: nat)
      in (97 \<le> n \<and> n \<le> 122) \<or> (65 \<le> n \<and> n \<le> 90) \<or> (48 \<le> n \<and> n \<le> 57))"

text \<open>\<open>_sanitiseToken\<close>: \<open>token.replace(/[^a-zA-Z0-9]/g, '')\<close>.\<close>

definition sanitiseToken :: "string \<Rightarrow> string" where
  "sanitiseToken token = filter alnum token"

text \<open>
  \<open>uniq\<close> of \<open>lodash.uniq\<close>: the first occurrence of every value, in order.
\<close>

fun uniq :: "'a list \<Rightarrow> 'a list" where
  "uniq [] = []"
| "uniq (x # xs) = x # uniq (filter (\<lambda>y. y \<noteq> x) xs)"

text \<open>
  Truthiness of a token that is \<open>undefined\<close> (\<open>None\<close>) or a string: the test of
  \<open>.filter((token) => token)\<close>.
\<close>

fun truthy :: "string option \<Rightarrow> bool" where
  "truthy None = False"
| "truthy (Some v) = (v \<noteq> [])"

text \<open>\<open>Array.prototype.findIndex\<close>, with \<open>-1\<close> when no element passes.\<close>

fun findIndex :: "('a \<Rightarrow> bool) \<Rightarrow> 'a list \<Rightarrow> int" where
  "findIndex p [] = - 1"
| "findIndex p (x # xs) =
     (if p x then 0 else (let i = findIndex p xs in if i < 0 then - 1 else i + 1))"

text \<open>A collaborator call: it is counted, and the clock moves by the time it took.\<close>

definition called :: "world \<Rightarrow> secure_api \<Rightarrow> secure_api" where
  "called w s = s\<lparr>clock := clock s + took w (calls s), calls := Suc (calls s)\<rparr>"

text \<open>
  \<open>window.setTimeout(f, timeout)\<close> followed by the wait for \<open>f\<close>: the delay is
  recorded, the clock moves by the delay (a negative one counts as 0) and by the
  lateness of the timer.
\<close>

definition setTimeout :: "world \<Rightarrow> int \<Rightarrow> secure_api \<Rightarrow> secure_api" where
  "setTimeout w timeout s =
     s\<lparr>timers := timers s @ [timeout],
       clock := clock s + nat timeout + took w (calls s),
       calls := Suc (calls s)\<rparr>"

definition emit :: "event \<Rightarrow> secure_api \<Rightarrow> secure_api" where
  "emit e s = s\<lparr>emitted := emitted s @ [e]\<rparr>"

text \<open>
  Modelled from the spec: the transport's \<open>updateToken(token, flag)\<close> and its
  \<open>token\<close> property are not part of this repository; the spec lists them as the
  transport's contract. The token pushed is the one read back.
\<close>

definition provider_updateToken :: "string \<Rightarrow> secure_api \<Rightarrow> secure_api" where
  "provider_updateToken token s =
     s\<lparr>providerToken := Some token, pushed := pushed s @ [token]\<rparr>"

text \<open>The getter \<open>secureToken\<close>.\<close>

definition secureToken :: "secure_api \<Rightarrow> string option" where
  "secureToken s = providerToken s"

text \<open>
  \<open>Math.floor(250 + (500 * Math.random()))\<close> is computed in IEEE 754 double
  precision: the product and then the sum are rounded to the nearest double, ties to
  the even one. \<open>ulp x\<close> is the distance between the doubles around \<open>x\<close>, for
  \<open>x\<close> between \<open>-1024\<close> and \<open>1024\<close>: it is found by halving, from
  \<open>1 / 2 ^ 43\<close> down to \<open>1 / 2 ^ 1074\<close>, the distance between the subnormal ones.
  \<open>to_double x\<close> is the double nearest to \<open>x\<close>, and \<open>backoff r\<close> the value of
  the expression when \<open>Math.random()\<close> returned \<open>r\<close>; \<open>Math.floor\<close> of a
  double is exact.
\<close>

fun ulp_below :: "nat \<Rightarrow> real \<Rightarrow> real \<Rightarrow> real" where
  "ulp_below 0 u x = u"
| "ulp_below (Suc n) u x = (if u * 2 ^ 52 \<le> x then u else ulp_below n (u / 2) x)"

definition ulp :: "real \<Rightarrow> real" where
  "ulp x = ulp_below 1031 (1 / 2 ^ 43) \<bar>x\<bar>"

definition round_half_even :: "real \<Rightarrow> int" where
  "round_half_even q =
     (let f = \<lfloor>q\<rfloor>; d = q - of_int f
      in if d < 1 / 2 then f else if 1 / 2 < d then f + 1 else if even f then f else f + 1)"

definition to_double :: "real \<Rightarrow> real" where
  "to_double x =
     (if x = 0 then 0 else let u = ulp x in of_int (round_half_even (x / u)) * u)"

definition backoff :: "real \<Rightarrow> int" where
  "backoff r = \<lfloor>to_double (250 + to_double (500 * r))\<rfloor>"

subsection \<open>The private methods\<close>

text \<open>
  \<open>isNodeUp\<close>: the ping counts as up on status 200 only; a failed request is down.
\<close>

definition isNodeUp :: "world \<Rightarrow> nat \<Rightarrow> bool" where
  "isNodeUp w k = (case fetchPing w k of Inr status \<Rightarrow> status = 200 | Inl e \<Rightarrow> False)"

text \<open>
  \<open>_getNextToken\<close> returns a reference to the first entry not yet tried, or \<open>null\<close>;
  the caller writes through the reference, so the model returns the index.
\<close>

definition getNextToken :: "secure_api \<Rightarrow> nat option" where
  "getNextToken s =
     (let nextTokenIndex = findIndex (\<lambda>t. \<not> tried t) (tokens s)
      in if nextTokenIndex < 0 then None else Some (nat nextTokenIndex))"

definition resetTokens :: "secure_api \<Rightarrow> secure_api" where
  "resetTokens s = s\<lparr>tokens := map (\<lambda>token. token\<lparr>tried := False\<rparr>) (tokens s)\<rparr>"

text \<open>
  \<open>_saveToken\<close>: \<open>store.set('sysuiToken', token)\<close>. The write may throw; it is
  the statement of the \<open>.then\<close> handler of \<open>connect()\<close> through which the
  \<open>.catch\<close> after it is reached.
\<close>

definition saveToken :: "world \<Rightarrow> string option \<Rightarrow> secure_api \<Rightarrow> (rejection + unit) \<times> secure_api" where
  "saveToken w token s =
     (case storeSet w (calls s) of
        Some e \<Rightarrow> (Inl e, called w s)
      | None \<Rightarrow> (Inr (), (called w s)\<lparr>sysuiToken := token\<rparr>))"

text \<open>
  \<open>_waitUntilNodeReady(_timeleft)\<close>. The argument \<open>_timeleft\<close> is \<open>timeleft0\<close>
  here; \<open>None\<close> is the call without an argument, which the code replaces by 30
  seconds. \<open>start\<close> is read before the node-status call, \<open>duration\<close> when the
  timer fires.
\<close>

fun waitUntilNodeReady ::
  "world \<Rightarrow> nat \<Rightarrow> int option \<Rightarrow> secure_api \<Rightarrow> ((rejection + bool) \<times> secure_api) option" where
  "waitUntilNodeReady w 0 timeleft0 s = None"
| "waitUntilNodeReady w (Suc fuel) timeleft0 s =
     (let timeleft = (case timeleft0 of Some t \<Rightarrow> t | None \<Rightarrow> 30 * 1000)
      in if timeleft \<le> 0 then Some (Inr True, s)
         else
           let start = int (clock s);
               s1 = called w s
           in case netChain w (calls s) of
                Inr u \<Rightarrow> Some (Inr True, s1)
              | Inl Falsy \<Rightarrow> Some (Inr True, s1)
              | Inl (Err ty) \<Rightarrow>
                  if ty \<noteq> ''NETWORK_DISABLED'' then Some (Inl (Err ty), s1)
                  else
                    let timeout = backoff (random w (calls s1));
                        s2 = setTimeout w timeout (called w s1);
                        duration = int (clock s2) - start
                    in waitUntilNodeReady w fuel (Some (timeleft - duration)) s2)"

text \<open>
  \<open>_connectWithToken(_token)\<close> and \<open>_generateAuthorizationToken()\<close>, which call
  each other. The inner \<open>case\<close> is \<open>connectPromise\<close>; its \<open>.catch\<close> turns every
  rejection into \<open>false\<close>. \<open>this.isNodeUp()\<close> is called right after
  \<open>this.provider.connect()\<close>, before either settles. The source's \<open>_token\<close> is
  \<open>token0\<close> here and its \<open>connected\<close> is \<open>conn\<close> (a name HOL already uses).
\<close>

fun connectWithToken ::
  "world \<Rightarrow> nat \<Rightarrow> string \<Rightarrow> secure_api \<Rightarrow> ((rejection + bool) \<times> secure_api) option"
and generateAuthorizationToken ::
  "world \<Rightarrow> nat \<Rightarrow> secure_api \<Rightarrow> ((rejection + bool) \<times> secure_api) option" where
  "connectWithToken w 0 token0 s = None"
| "connectWithToken w (Suc fuel) token0 s =
     (let token = sanitiseToken token0;
          s1 = provider_updateToken token s;
          outcome = providerConnect w (calls s1) token;
          s2 = called w s1;
          up = isNodeUp w (calls s2);
          s3 = called w s2
      in case (case outcome of
                 Inr u \<Rightarrow>
                   if token = ''initial'' then generateAuthorizationToken w fuel s3
                   else Some (Inr True, s3)
               | Inl error \<Rightarrow> Some (Inr False, s3)) of
           None \<Rightarrow> None
         | Some (r, s4) \<Rightarrow>
             let conn = (case r of Inr b \<Rightarrow> b | Inl error \<Rightarrow> False)
             in if conn then Some (Inr True, s4)
                else if \<not> up then
                  let timeout = retryTimeout w (calls s4)
                  in connectWithToken w fuel token (setTimeout w timeout s4)
                else Some (Inr False, s4))"
| "generateAuthorizationToken w 0 s = None"
| "generateAuthorizationToken w (Suc fuel) s =
     (case generateToken w (calls s) of
        Inl error \<Rightarrow> Some (Inl error, called w s)
      | Inr token \<Rightarrow> connectWithToken w fuel token (called w s))"

text \<open>
  \<open>_connect()\<close>. The final \<open>.catch\<close> logs a rejection and resolves with \<open>false\<close>;
  it also covers the recursive call made inside \<open>.then\<close>.
\<close>

definition markTried :: "nat \<Rightarrow> secure_api \<Rightarrow> secure_api" where
  "markTried i s = s\<lparr>tokens := (tokens s)[i := (tokens s ! i)\<lparr>tried := True\<rparr>]\<rparr>"

definition logError :: "rejection \<Rightarrow> secure_api \<Rightarrow> secure_api" where
  "logError e s = s\<lparr>errors := errors s @ [e]\<rparr>"

fun priv_connect ::
  "world \<Rightarrow> nat \<Rightarrow> secure_api \<Rightarrow> ((rejection + bool) \<times> secure_api) option" where
  "priv_connect w 0 s = None"
| "priv_connect w (Suc fuel) s =
     (case getNextToken s of
        None \<Rightarrow> Some (Inr False, s)
      | Some i \<Rightarrow>
          (case connectWithToken w fuel (token_value (tokens s ! i)) (markTried i s) of
             None \<Rightarrow> None
           | Some (Inl error, s2) \<Rightarrow> Some (Inr False, logError error s2)
           | Some (Inr validToken, s2) \<Rightarrow>
               if \<not> validToken then
                 (case priv_connect w fuel s2 of
                    None \<Rightarrow> None
                  | Some (Inl error, s3) \<Rightarrow> Some (Inr False, logError error s3)
                  | Some (Inr conn, s3) \<Rightarrow> Some (Inr conn, s3))
               else
                 (case waitUntilNodeReady w fuel None s2 of
                    None \<Rightarrow> None
                  | Some (Inl error, s3) \<Rightarrow> Some (Inr False, logError error s3)
                  | Some (Inr ready, s3) \<Rightarrow> Some (Inr True, s3))))"

subsection \<open>The public methods\<close>

text \<open>
  The handler of \<open>.then\<close> in \<open>connect()\<close>, run when \<open>_connect()\<close> resolves.
\<close>

definition connect_then :: "world \<Rightarrow> bool \<Rightarrow> secure_api \<Rightarrow> (rejection + unit) \<times> secure_api" where
  "connect_then w conn s =
     (let s1 = s\<lparr>isConnecting := False\<rparr>
      in if conn then
           (case saveToken w (secureToken s1) s1 of
              (Inl error, s2) \<Rightarrow> (Inl error, s2)
            | (Inr u, s2) \<Rightarrow> (Inr (), emit Connected (s2\<lparr>needsToken := False\<rparr>)))
         else (Inr (), emit Disconnected (s1\<lparr>needsToken := True\<rparr>)))"

text \<open>The handler of \<open>.catch\<close> in \<open>connect()\<close>.\<close>

definition connect_catch :: "rejection \<Rightarrow> secure_api \<Rightarrow> (rejection + unit) \<times> secure_api" where
  "connect_catch error s =
     (Inr (), logError error (emit Disconnected (s\<lparr>isConnecting := False\<rparr>)))"

text \<open>
  The synchronous start of a cycle in \<open>connect()\<close>: the flag, the event, the reset.
\<close>

definition connect_start :: "secure_api \<Rightarrow> secure_api" where
  "connect_start s = resetTokens (emit Connecting (s\<lparr>isConnecting := True\<rparr>))"

definition connect ::
  "world \<Rightarrow> nat \<Rightarrow> secure_api \<Rightarrow> (connect_result \<times> secure_api) option" where
  "connect w fuel s =
     (if isConnecting s then Some (Returned, s)
      else
        (case priv_connect w fuel (connect_start s) of
           None \<Rightarrow> None
         | Some (r, s1) \<Rightarrow>
             (case (case r of
                      Inr conn \<Rightarrow> connect_then w conn s1
                    | Inl error \<Rightarrow> (Inl error, s1)) of
                (Inl error, s2) \<Rightarrow>
                  (case connect_catch error s2 of (r', s3) \<Rightarrow> Some (Settled r', s3))
              | (Inr u, s2) \<Rightarrow> Some (Settled (Inr u), s2))))"

definition updateToken ::
  "world \<Rightarrow> nat \<Rightarrow> string \<Rightarrow> secure_api \<Rightarrow> (connect_result \<times> secure_api) option" where
  "updateToken w fuel token0 s =
     (let token = sanitiseToken token0
      in connect w fuel
           (s\<lparr>tokens := [\<lparr>token_value = token, tried = False\<rparr>] @ tokens s\<rparr>))"

text \<open>
  The constructor: \<open>stored\<close> is \<open>store.get('sysuiToken')\<close>, which is also the token
  the transport is created with; \<open>nextToken\<close> is the constructor's argument. It ends
  with \<open>this.connect()\<close>. Every value that passes \<open>truthy\<close> is a string, so
  \<open>the\<close> is only applied to \<open>Some\<close>.
\<close>

definition initialTokens :: "string option \<Rightarrow> string option \<Rightarrow> candidate list" where
  "initialTokens stored nextToken =
     map (\<lambda>v. \<lparr>token_value = the v, tried = False\<rparr>)
       (filter truthy (uniq [stored, nextToken, Some ''initial'']))"

definition init :: "string option \<Rightarrow> string option \<Rightarrow> nat \<Rightarrow> secure_api" where
  "init stored nextToken now =
     \<lparr>isConnecting = False, needsToken = False,
      tokens = initialTokens stored nextToken,
      providerToken = stored, sysuiToken = stored,
      emitted = [], pushed = [], timers = [], errors = [],
      clock = now, calls = 0\<rparr>"

definition constructor ::
  "world \<Rightarrow> nat \<Rightarrow> string option \<Rightarrow> string option \<Rightarrow> nat \<Rightarrow> (connect_result \<times> secure_api) option" where
  "constructor w fuel stored nextToken now = connect w fuel (init stored nextToken now)"

subsection \<open>Relations between the state before and after a method\<close>

text \<open>
  \<open>unchanged\<close>: the flags, the candidate list, the store, the events and the error log
  are what they were. \<open>same_candidates\<close>: as before, but the \<open>tried\<close> marks and the
  error log may differ.
\<close>

definition unchanged :: "secure_api \<Rightarrow> secure_api \<Rightarrow> bool" where
  "unchanged s s' =
     (isConnecting s' = isConnecting s \<and> needsToken s' = needsToken s \<and>
      tokens s' = tokens s \<and> sysuiToken s' = sysuiToken s \<and>
      emitted s' = emitted s \<and> errors s' = errors s)"

definition same_candidates :: "secure_api \<Rightarrow> secure_api \<Rightarrow> bool" where
  "same_candidates s s' =
     (isConnecting s' = isConnecting s \<and> needsToken s' = needsToken s \<and>
      map token_value (tokens s') = map token_value (tokens s) \<and>
      sysuiToken s' = sysuiToken s \<and> emitted s' = emitted s)"

text \<open>
  \<open>pushed_since s s'\<close>: the tokens handed to the transport between \<open>s\<close> and \<open>s'\<close>;
  \<open>sanitised_pushes s s'\<close>: the earlier ones are still there and each new one
  consists of characters of \<open>[a-zA-Z0-9]\<close> only.
\<close>

definition pushed_since :: "secure_api \<Rightarrow> secure_api \<Rightarrow> string list" where
  "pushed_since s s' = drop (length (pushed s)) (pushed s')"

definition sanitised_pushes :: "secure_api \<Rightarrow> secure_api \<Rightarrow> bool" where
  "sanitised_pushes s s' =
     (take (length (pushed s)) (pushed s') = pushed s \<and>
      list_all (list_all alnum) (pushed_since s s'))"

text \<open>
  A relation that holds along every step the attempt chain is made of holds along
  the chain; these two predicates name the steps.
\<close>

definition closed_under_steps :: "world \<Rightarrow> (secure_api \<Rightarrow> secure_api \<Rightarrow> bool) \<Rightarrow> bool" where
  "closed_under_steps w R =
     ((\<forall>s. R s s) \<and> (\<forall>s s1 s2. R s s1 \<longrightarrow> R s1 s2 \<longrightarrow> R s s2) \<and>
      (\<forall>s. R s (called w s)) \<and> (\<forall>d s. R s (setTimeout w d s)) \<and>
      (\<forall>t s. R s (provider_updateToken (sanitiseToken t) s)))"

definition closed_under_marks :: "(secure_api \<Rightarrow> secure_api \<Rightarrow> bool) \<Rightarrow> bool" where
  "closed_under_marks R = ((\<forall>i s. R s (markTried i s)) \<and> (\<forall>e s. R s (logError e s)))"

text \<open>
  The three states a cycle that ran from \<open>connect_start\<close> to the state \<open>s1\<close> can
  settle in: connected with the token saved; connected, but \<open>store.set\<close> threw
  \<open>e\<close>; not connected.
\<close>

definition settle_connected :: "world \<Rightarrow> secure_api \<Rightarrow> secure_api" where
  "settle_connected w s1 =
     emit Connected
       ((called w (s1\<lparr>isConnecting := False\<rparr>))\<lparr>sysuiToken := providerToken s1, needsToken := False\<rparr>)"

definition settle_store_failed :: "world \<Rightarrow> rejection \<Rightarrow> secure_api \<Rightarrow> secure_api" where
  "settle_store_failed w e s1 =
     logError e (emit Disconnected (called w (s1\<lparr>isConnecting := False\<rparr>)))"

definition settle_disconnected :: "secure_api \<Rightarrow> secure_api" where
  "settle_disconnected s1 = emit Disconnected (s1\<lparr>isConnecting := False, needsToken := True\<rparr>)"

text \<open>
  \<open>continues s s'\<close>: what was pushed to the transport and the timers set up to
  \<open>s\<close> are still the first ones in \<open>s'\<close>, and neither the call counter nor the
  clock went back.
\<close>

definition continues :: "secure_api \<Rightarrow> secure_api \<Rightarrow> bool" where
  "continues s s' =
     (take (length (pushed s)) (pushed s') = pushed s \<and>
      take (length (timers s)) (timers s') = timers s \<and>
      calls s \<le> calls s' \<and> clock s \<le> clock s')"

text \<open>
  \<open>tried_in_vain w fuel n s\<close>: the state in which \<open>_connect()\<close>, started in
  \<open>s\<close>, stands once it has taken the next untried candidate \<open>n\<close> times, marked it
  tried and found it invalid in an attempt of at most \<open>fuel\<close> nested invocations;
  \<open>None\<close> if a candidate is missing, is found valid, or needs more invocations.
\<close>

fun tried_in_vain :: "world \<Rightarrow> nat \<Rightarrow> nat \<Rightarrow> secure_api \<Rightarrow> secure_api option" where
  "tried_in_vain w fuel 0 s = Some s"
| "tried_in_vain w fuel (Suc n) s =
     (case getNextToken s of
        None \<Rightarrow> None
      | Some i \<Rightarrow>
          (case connectWithToken w fuel (token_value (tokens s ! i)) (markTried i s) of
             None \<Rightarrow> None
           | Some (r, s2) \<Rightarrow> if r = Inr False then tried_in_vain w fuel n s2 else None))"

text \<open>
  A round of the readiness wait whose node-status call is call number \<open>c\<close>: the
  call, the draw of \<open>Math.random()\<close> (call \<open>c + 1\<close>) and the timer (call
  \<open>c + 2\<close>). \<open>round_delay\<close> is the delay the timer is set to,
  \<open>round_duration\<close> the value of \<open>duration\<close> when it fires.
\<close>

definition round_delay :: "world \<Rightarrow> nat \<Rightarrow> int" where
  "round_delay w c = backoff (random w (Suc c))"

definition round_duration :: "world \<Rightarrow> nat \<Rightarrow> nat" where
  "round_duration w c =
     took w c + took w (Suc c) + nat (round_delay w c) + took w (Suc (Suc c))"

subsection \<open>Concrete worlds and states\<close>

text \<open>
  \<open>refusing\<close>: the node is up and refuses every token; the signer hands out
  \<open>g-1\<close>; the node-status call succeeds; nothing takes time.
\<close>

definition refusing :: world where
  "refusing =
     \<lparr>providerConnect = (\<lambda>k t. Inl (Err ''close'')), fetchPing = (\<lambda>k. Inr 200),
      generateToken = (\<lambda>k. Inr ''g-1''), netChain = (\<lambda>k. Inr ()),
      random = (\<lambda>k. 0), retryTimeout = (\<lambda>k. 1000), storeSet = (\<lambda>k. None),
      took = (\<lambda>k. 0)\<rparr>"

text \<open>\<open>accepting ts\<close>: as \<open>refusing\<close>, but the node accepts the tokens in \<open>ts\<close>.\<close>

definition accepting :: "string list \<Rightarrow> world" where
  "accepting ts =
     refusing\<lparr>providerConnect := (\<lambda>k t. if t \<in> set ts then Inr () else Inl (Err ''close''))\<rparr>"

text \<open>
  \<open>fresh\<close>: a manager just built, with nothing stored and no token given;
  \<open>busy\<close>: the same at the start of its first cycle, as \<open>_connect()\<close> finds it.
\<close>

definition fresh :: secure_api where
  "fresh = init None None 0"


text \<open>
  \<open>chain_end\<close>: where the attempt chain started from \<open>busy\<close> stands in the world
  \<open>refusing\<close> before \<open>connect()\<close> settles.
\<close>

definition chain_end :: secure_api where
  "chain_end =
     \<lparr>isConnecting = True, needsToken = False,
      tokens = [\<lparr>token_value = ''initial'', tried = True\<rparr>],
      providerToken = Some ''initial'', sysuiToken = None,
      emitted = [Connecting], pushed = [''initial''], timers = [], errors = [],
      clock = 0, calls = 2\<rparr>"

text \<open>
  \<open>after_generated\<close>: a manager built with the stored token \<open>a-1\<close> and the given
  token \<open>b_2\<close>, in a world that accepts only the sentinel and the generated token.
\<close>

definition after_generated :: secure_api where
  "after_generated =
     \<lparr>isConnecting = False, needsToken = False,
      tokens = [\<lparr>token_value = ''a-1'', tried = True\<rparr>,
                \<lparr>token_value = ''b_2'', tried = True\<rparr>,
                \<lparr>token_value = ''initial'', tried = True\<rparr>],
      providerToken = Some ''g1'', sysuiToken = Some ''g1'',
      emitted = [Connecting, Connected],
      pushed = [''a1'', ''b2'', ''initial'', ''g1''], timers = [], errors = [],
      clock = 0, calls = 11\<rparr>"

text \<open>
  \<open>after_refusal\<close>: the manager built with nothing stored, once its first cycle
  has failed in \<open>refusing\<close>; \<open>after_update\<close> and \<open>after_second_update\<close>: the same
  after \<open>updateToken('ab-cd')\<close> and then \<open>updateToken('abcd')\<close>.
\<close>

definition after_refusal :: secure_api where
  "after_refusal =
     \<lparr>isConnecting = False, needsToken = True,
      tokens = [\<lparr>token_value = ''initial'', tried = True\<rparr>],
      providerToken = Some ''initial'', sysuiToken = None,
      emitted = [Connecting, Disconnected], pushed = [''initial''],
      timers = [], errors = [], clock = 0, calls = 2\<rparr>"

definition after_update :: secure_api where
  "after_update =
     \<lparr>isConnecting = False, needsToken = True,
      tokens = [\<lparr>token_value = ''abcd'', tried = True\<rparr>,
                \<lparr>token_value = ''initial'', tried = True\<rparr>],
      providerToken = Some ''initial'', sysuiToken = None,
      emitted = [Connecting, Disconnected, Connecting, Disconnected],
      pushed = [''initial'', ''abcd'', ''initial''],
      timers = [], errors = [], clock = 0, calls = 6\<rparr>"

definition after_second_update :: secure_api where
  "after_second_update =
     \<lparr>isConnecting = False, needsToken = True,
      tokens = [\<lparr>token_value = ''abcd'', tried = True\<rparr>,
                \<lparr>token_value = ''abcd'', tried = True\<rparr>,
                \<lparr>token_value = ''initial'', tried = True\<rparr>],
      providerToken = Some ''initial'', sysuiToken = None,
      emitted = [Connecting, Disconnected, Connecting, Disconnected, Connecting,
                 Disconnected],
      pushed = [''initial'', ''abcd'', ''initial'', ''abcd'', ''abcd'', ''initial''],
      timers = [], errors = [], clock = 0, calls = 12\<rparr>"

text \<open>
  \<open>fresh_updated\<close>: \<open>fresh\<close> after \<open>updateToken('ab-12_cd!')\<close> in \<open>refusing\<close>.
\<close>

definition fresh_updated :: secure_api where
  "fresh_updated =
     \<lparr>isConnecting = False, needsToken = True,
      tokens = [\<lparr>token_value = ''ab12cd'', tried = True\<rparr>,
                \<lparr>token_value = ''initial'', tried = True\<rparr>],
      providerToken = Some ''initial'', sysuiToken = None,
      emitted = [Connecting, Disconnected], pushed = [''ab12cd'', ''initial''],
      timers = [], errors = [], clock = 0, calls = 4\<rparr>"

text \<open>
  \<open>waking\<close>: the node is down and refuses for the first two calls, then it is up
  and accepts. \<open>no_signer\<close>: the node accepts every token, but the signer fails.
\<close>

definition waking :: world where
  "waking =
     refusing\<lparr>providerConnect := (\<lambda>k t. if k < 2 then Inl (Err ''close'') else Inr ()),
              fetchPing := (\<lambda>k. if k < 2 then Inl Falsy else Inr 200)\<rparr>"

definition no_signer :: world where
  "no_signer =
     refusing\<lparr>providerConnect := (\<lambda>k t. Inr ()),
              generateToken := (\<lambda>k. Inl (Err ''rpc''))\<rparr>"

text \<open>
  \<open>woken\<close>: \<open>fresh\<close> after \<open>_connectWithToken('tok-1')\<close> in \<open>waking\<close>;
  \<open>direct_valid\<close>: \<open>fresh\<close> after \<open>_connectWithToken('tok-1')\<close> where \<open>tok1\<close> is
  accepted; \<open>generated_valid\<close>: \<open>fresh\<close> after \<open>_connectWithToken('initial')\<close> where
  the sentinel and the generated token are accepted.
\<close>

definition woken :: secure_api where
  "woken =
     fresh\<lparr>providerToken := Some ''tok1'', pushed := [''tok1'', ''tok1''],
           timers := [1000], clock := 1000, calls := 5\<rparr>"



text \<open>
  \<open>stored_and_given\<close>: a manager built with \<open>a\<close> in the store and \<open>b-1\<close> as
  its argument.
\<close>

definition stored_and_given :: secure_api where
  "stored_and_given = init (Some ''a'') (Some ''b-1'') 0"

text \<open>
  \<open>awaiting\<close>: \<open>fresh\<close> in its first cycle, at the point where
  \<open>_connectWithToken\<close> waits for the transport and the ping.
  \<open>hash_given\<close>: a manager built with \<open>in-itial\<close> as its argument, at the start of
  its first cycle.
\<close>

definition awaiting :: secure_api where
  "awaiting =
     \<lparr>isConnecting = True, needsToken = False,
      tokens = [\<lparr>token_value = ''initial'', tried = True\<rparr>],
      providerToken = Some ''initial'', sysuiToken = None,
      emitted = [Connecting], pushed = [''initial''], timers = [], errors = [],
      clock = 0, calls = 2\<rparr>"


text \<open>
  \<open>no_candidates\<close>: a manager whose list is empty.
\<close>

definition no_candidates :: secure_api where
  "no_candidates = fresh\<lparr>tokens := []\<rparr>"

text \<open>
  \<open>initialising\<close>: the node-status call always fails with \<open>NETWORK_DISABLED\<close>
  and \<open>Math.random()\<close> is always one half. \<open>broken_status\<close>: the node accepts the
  sentinel and the generated token, and the node-status call fails with another
  error. \<open>full_store\<close>: the same node with a working status call, but \<open>store.set\<close>
  throws.
\<close>

definition initialising :: world where
  "initialising =
     refusing\<lparr>netChain := (\<lambda>k. Inl (Err ''NETWORK_DISABLED'')), random := (\<lambda>k. 1 / 2)\<rparr>"






text \<open>
  \<open>warming\<close>: the node refuses every token and the ping fails for the first two
  calls; \<open>unreachable\<close>: the node refuses every token and the ping always fails;
  \<open>direct_only\<close>: the node accepts the sentinel but not the generated token;
  \<open>slow_start\<close>: the node accepts \<open>b1\<close> only, and the node-status call made as
  call number 4 fails with \<open>NETWORK_DISABLED\<close>.
\<close>

definition warming :: world where
  "warming = refusing\<lparr>fetchPing := (\<lambda>k. if k < 2 then Inl Falsy else Inr 200)\<rparr>"

definition unreachable :: world where
  "unreachable = refusing\<lparr>fetchPing := (\<lambda>k. Inl Falsy)\<rparr>"

definition direct_only :: world where
  "direct_only = accepting [''initial'']"

definition slow_start :: world where
  "slow_start =
     (accepting [''b1''])\<lparr>netChain :=
        (\<lambda>k. if k = 4 then Inl (Err ''NETWORK_DISABLED'') else Inr ())\<rparr>"




section \<open>Properties\<close>

subsection \<open>What the attempt chain leaves alone\<close>

lemma connectWithToken_rel_aux:
  assumes R: "closed_under_steps w R"
  shows "(\<forall>t s r s'. connectWithToken w fuel t s = Some (r, s') \<longrightarrow> R s s') \<and>
   (\<forall>s r s'. generateAuthorizationToken w fuel s = Some (r, s') \<longrightarrow> R s s')"
proof -
  from R have R_refl: "\<And>s. R s s"
    and R_trans: "\<And>s s1 s2. R s s1 \<Longrightarrow> R s1 s2 \<Longrightarrow> R s s2"
    and R_called: "\<And>s. R s (called w s)"
    and timer: "\<And>d s. R s (setTimeout w d s)"
    and push: "\<And>t s. R s (provider_updateToken (sanitiseToken t) s)"
    unfolding closed_under_steps_def by blast+
  show ?thesis
  proof (induction fuel)
  case 0
  show ?case by simp
next
  case (Suc fuel)
  from Suc have ihc: "\<And>t s r s'. connectWithToken w fuel t s = Some (r, s') \<Longrightarrow> R s s'"
    by blast
  from Suc have ihg: "\<And>s r s'. generateAuthorizationToken w fuel s = Some (r, s') \<Longrightarrow> R s s'"
    by blast
  have gen: "R s s'" if h: "generateAuthorizationToken w (Suc fuel) s = Some (r, s')" for s r s'
  proof (cases "generateToken w (calls s)")
    case (Inl e)
    with h show ?thesis by (auto simp: R_called)
  next
    case (Inr g)
    with h have "connectWithToken w fuel g (called w s) = Some (r, s')" by simp
    then have "R (called w s) s'" by (rule ihc)
    then show ?thesis by (rule R_trans [OF R_called])
  qed
  have con: "R s s'" if h: "connectWithToken w (Suc fuel) t s = Some (r, s')" for t s r s'
  proof -
    let ?tok = "sanitiseToken t"
    let ?s3 = "called w (called w (provider_updateToken ?tok s))"
    let ?inner = "(case providerConnect w (calls (provider_updateToken ?tok s)) ?tok of
                 Inr u \<Rightarrow> if ?tok = ''initial'' then generateAuthorizationToken w fuel ?s3
                          else Some (Inr True, ?s3)
               | Inl error \<Rightarrow> Some (Inr False, ?s3))"
    have s3: "R s ?s3" by (blast intro: R_trans push R_called)
    obtain r4 s4 where inner: "?inner = Some (r4, s4)"
      using h by (cases ?inner) (auto simp: Let_def)
    have s4: "R ?s3 s4"
      using inner by (auto split: sum.splits if_splits intro: R_refl ihg)
    have "R s4 s'"
    proof (cases "s' = s4")
      case True
      then show ?thesis by (simp add: R_refl)
    next
      case False
      with h inner have "connectWithToken w fuel ?tok (setTimeout w (retryTimeout w (calls s4)) s4) = Some (r, s')"
        by (auto simp: Let_def split: if_splits)
      then have "R (setTimeout w (retryTimeout w (calls s4)) s4) s'" by (rule ihc)
      then show ?thesis by (rule R_trans [OF timer])
    qed
    with s3 s4 show ?thesis by (blast intro: R_trans)
  qed
  from gen con show ?case by blast
  qed
qed

lemma waitUntilNodeReady_rel:
  assumes R: "closed_under_steps w R"
  shows "waitUntilNodeReady w fuel left s = Some (r, s') \<Longrightarrow> R s s'"
proof -
  from R have R_refl: "\<And>s. R s s"
    and R_trans: "\<And>s s1 s2. R s s1 \<Longrightarrow> R s1 s2 \<Longrightarrow> R s s2"
    and R_called: "\<And>s. R s (called w s)"
    and timer: "\<And>d s. R s (setTimeout w d s)"
    and push: "\<And>t s. R s (provider_updateToken (sanitiseToken t) s)"
    unfolding closed_under_steps_def by blast+
  show "waitUntilNodeReady w fuel left s = Some (r, s') \<Longrightarrow> R s s'"
  proof (induction fuel arbitrary: left s)
  case 0
  then show ?case by simp
next
  case (Suc fuel)
  let ?s2 = "setTimeout w (backoff (random w (calls (called w s)))) (called w (called w s))"
  have s2: "R s ?s2"
    by (blast intro: R_trans R_called timer)
  show ?case
  proof (cases "s' = s \<or> s' = called w s")
    case True
    then show ?thesis by (auto simp: R_refl R_called)
  next
    case False
    with Suc.prems obtain t' where "waitUntilNodeReady w fuel (Some t') ?s2 = Some (r, s')"
      by (auto simp: Let_def split: if_splits sum.splits rejection.splits)
    then have "R ?s2 s'" by (rule Suc.IH)
    with s2 show ?thesis by (rule R_trans)
  qed
  qed
qed

lemma priv_connect_rel:
  assumes R: "closed_under_steps w R" and M: "closed_under_marks R"
  shows "priv_connect w fuel s = Some (r, s') \<Longrightarrow> R s s'"
proof -
  from R have R_refl: "\<And>s. R s s"
    and R_trans: "\<And>s s1 s2. R s s1 \<Longrightarrow> R s1 s2 \<Longrightarrow> R s s2"
    and R_called: "\<And>s. R s (called w s)"
    and timer: "\<And>d s. R s (setTimeout w d s)"
    and push: "\<And>t s. R s (provider_updateToken (sanitiseToken t) s)"
    unfolding closed_under_steps_def by blast+
  from M have mark: "\<And>i s. R s (markTried i s)" and logs: "\<And>e s. R s (logError e s)"
    unfolding closed_under_marks_def by blast+

  show "priv_connect w fuel s = Some (r, s') \<Longrightarrow> R s s'"
  proof (induction fuel arbitrary: s r s')
  case 0
  then show ?case by simp
next
  case (Suc fuel)
  have cwt: "R s s'" if "connectWithToken w f t s = Some (r, s')" for f t s r s'
    using that connectWithToken_rel_aux [OF R, of f] by blast
  have wait: "R s s'" if "waitUntilNodeReady w f left s = Some (r, s')" for f left s r s'
    using that waitUntilNodeReady_rel [OF R] by blast
  show ?case
  proof (cases "getNextToken s")
    case None
    with Suc.prems show ?thesis by (simp add: R_refl)
  next
    case (Some i)
    let ?s1 = "markTried i s"
    obtain r2 s2 where c: "connectWithToken w fuel (token_value (tokens s ! i)) ?s1 = Some (r2, s2)"
      using Suc.prems Some by (auto split: option.splits)
    have s2: "R s s2"
      using cwt [OF c] mark R_trans by blast
    have "R s2 s'"
    proof (cases r2)
      case (Inl e)
      with Suc.prems Some c show ?thesis by (auto simp: logs)
    next
      case (Inr valid)
      show ?thesis
      proof (cases valid)
        case True
        with Suc.prems Some c Inr obtain r3 s3 where
          w3: "waitUntilNodeReady w fuel None s2 = Some (r3, s3)"
          by (cases "waitUntilNodeReady w fuel None s2") auto
        with Suc.prems Some c Inr True have "s' = s3 \<or> (\<exists>e. s' = logError e s3)"
          by (auto split: sum.splits)
        then show ?thesis using wait [OF w3] logs R_trans by blast
      next
        case False
        with Suc.prems Some c Inr obtain r3 s3 where
          p3: "priv_connect w fuel s2 = Some (r3, s3)"
          by (cases "priv_connect w fuel s2") auto
        with Suc.prems Some c Inr False have "s' = s3 \<or> (\<exists>e. s' = logError e s3)"
          by (auto split: sum.splits)
        then show ?thesis using Suc.IH [OF p3] logs R_trans by blast
      qed
    qed
    with s2 show ?thesis by (rule R_trans)
  qed
  qed
qed

lemma steps_unchanged: "closed_under_steps w unchanged"
  by (simp add: closed_under_steps_def unchanged_def called_def setTimeout_def
      provider_updateToken_def)

lemma steps_same_candidates: "closed_under_steps w same_candidates"
  by (simp add: closed_under_steps_def same_candidates_def called_def setTimeout_def
      provider_updateToken_def)

lemma map_token_value_mark:
  "map token_value (xs[i := (xs ! i)\<lparr>tried := b\<rparr>]) = map token_value xs"
  by (cases "i < length xs") (simp_all add: map_update list_update_same_conv list_update_beyond)

lemma marks_same_candidates: "closed_under_marks same_candidates"
  by (simp add: closed_under_marks_def same_candidates_def markTried_def logError_def
      map_token_value_mark)

lemma list_all_alnum_sanitiseToken: "list_all alnum (sanitiseToken t)"
  by (simp add: sanitiseToken_def list_all_iff)

lemma sanitiseToken_idem: "sanitiseToken (sanitiseToken t) = sanitiseToken t"
  by (simp add: sanitiseToken_def)

lemma sanitised_pushes_refl: "sanitised_pushes s s"
  by (simp add: sanitised_pushes_def pushed_since_def)

lemma sanitised_pushes_trans:
  assumes "sanitised_pushes s s1" and "sanitised_pushes s1 s2"
  shows "sanitised_pushes s s2"
proof -
  from assms(1) obtain a where a: "pushed s1 = pushed s @ a" "list_all (list_all alnum) a"
    unfolding sanitised_pushes_def pushed_since_def
    by (metis append_take_drop_id)
  from assms(2) obtain b where b: "pushed s2 = pushed s1 @ b" "list_all (list_all alnum) b"
    unfolding sanitised_pushes_def pushed_since_def
    by (metis append_take_drop_id)
  from a b show ?thesis
    by (simp add: sanitised_pushes_def pushed_since_def)
qed

lemma steps_sanitised_pushes: "closed_under_steps w sanitised_pushes"
  unfolding closed_under_steps_def
proof (intro conjI allI impI)
  show "sanitised_pushes s s" for s by (rule sanitised_pushes_refl)
  show "sanitised_pushes s s2" if "sanitised_pushes s s1" "sanitised_pushes s1 s2" for s s1 s2
    using that by (rule sanitised_pushes_trans)
  show "sanitised_pushes s (called w s)" for s
    by (simp add: sanitised_pushes_def pushed_since_def called_def)
  show "sanitised_pushes s (setTimeout w d s)" for d s
    by (simp add: sanitised_pushes_def pushed_since_def setTimeout_def)
  show "sanitised_pushes s (provider_updateToken (sanitiseToken t) s)" for t s
    by (simp add: sanitised_pushes_def pushed_since_def provider_updateToken_def
        list_all_alnum_sanitiseToken)
qed

lemma marks_sanitised_pushes: "closed_under_marks sanitised_pushes"
  by (simp add: closed_under_marks_def sanitised_pushes_def pushed_since_def markTried_def
      logError_def)

lemma connectWithToken_unchanged:
  "connectWithToken w fuel t s = Some (r, s') \<Longrightarrow> unchanged s s'"
  using connectWithToken_rel_aux [OF steps_unchanged] by blast

lemma waitUntilNodeReady_unchanged:
  "waitUntilNodeReady w fuel left s = Some (r, s') \<Longrightarrow> unchanged s s'"
  by (rule waitUntilNodeReady_rel [OF steps_unchanged])

lemma priv_connect_same_candidates:
  "priv_connect w fuel s = Some (r, s') \<Longrightarrow> same_candidates s s'"
  by (rule priv_connect_rel [OF steps_same_candidates marks_same_candidates])

lemma priv_connect_never_rejects:
  "priv_connect w fuel s \<noteq> Some (Inl e, s')"
  by (cases fuel) (auto split: option.splits sum.splits if_splits)

lemma priv_connect_resolves:
  "priv_connect w fuel s = Some (r, s') \<Longrightarrow> \<exists>b. r = Inr b"
  using priv_connect_never_rejects [of w fuel s _ s'] by (cases r) auto

lemma connect_idle:
  assumes "\<not> isConnecting s" and "priv_connect w fuel (connect_start s) = Some (Inr b, s1)"
  shows "connect w fuel s =
     Some (Settled (Inr ()),
       if b then (case storeSet w (calls s1) of
                    None \<Rightarrow> settle_connected w s1
                  | Some e \<Rightarrow> settle_store_failed w e s1)
       else settle_disconnected s1)"
  using assms
  by (simp add: connect_def connect_then_def connect_catch_def saveToken_def secureToken_def
      settle_connected_def settle_store_failed_def settle_disconnected_def Let_def called_def
      emit_def logError_def
      split: option.splits)

lemma connect_settles:
  assumes "connect w fuel s = Some (c, s')" and "\<not> isConnecting s"
  obtains b s1 where "priv_connect w fuel (connect_start s) = Some (Inr b, s1)"
    and "c = Settled (Inr ())"
    and "s' = (if b then (case storeSet w (calls s1) of
                    None \<Rightarrow> settle_connected w s1
                  | Some e \<Rightarrow> settle_store_failed w e s1)
       else settle_disconnected s1)"
proof -
  from assms obtain r s1 where p: "priv_connect w fuel (connect_start s) = Some (r, s1)"
    by (cases "priv_connect w fuel (connect_start s)") (auto simp: connect_def)
  then obtain b where "r = Inr b" using priv_connect_resolves by blast
  with p have p': "priv_connect w fuel (connect_start s) = Some (Inr b, s1)" by simp
  from connect_idle [OF assms(2) p'] assms(1) that [OF p'] show thesis by simp
qed

lemma connect_sanitised_pushes:
  assumes "connect w fuel s = Some (c, s')"
  shows "sanitised_pushes s s'"
proof (cases "isConnecting s")
  case True
  with assms show ?thesis by (simp add: connect_def sanitised_pushes_refl)
next
  case False
  from connect_settles [OF assms False] obtain b s1 where
    p: "priv_connect w fuel (connect_start s) = Some (Inr b, s1)"
    and s': "s' = (if b then (case storeSet w (calls s1) of
                    None \<Rightarrow> settle_connected w s1
                  | Some e \<Rightarrow> settle_store_failed w e s1)
       else settle_disconnected s1)" by blast
  have "sanitised_pushes (connect_start s) s1"
    by (rule priv_connect_rel [OF steps_sanitised_pushes marks_sanitised_pushes p])
  then have 1: "take (length (pushed s)) (pushed s1) = pushed s"
      "list_all (list_all alnum) (drop (length (pushed s)) (pushed s1))"
    by (simp_all add: sanitised_pushes_def pushed_since_def connect_start_def resetTokens_def emit_def)
  from s' have "pushed s' = pushed s1"
    by (simp add: settle_connected_def settle_store_failed_def settle_disconnected_def
        emit_def logError_def called_def split: option.splits)
  with 1 show ?thesis by (simp add: sanitised_pushes_def pushed_since_def)
qed

lemma set_uniq: "set (uniq xs) = set xs"
  by (induction xs rule: uniq.induct) auto

lemma distinct_uniq: "distinct (uniq xs)"
  by (induction xs rule: uniq.induct) (auto simp: set_uniq)

lemma distinct_initialTokens: "distinct (map token_value (initialTokens stored nextToken))"
proof -
  let ?xs = "filter truthy (uniq [stored, nextToken, Some ''initial''])"
  have d: "distinct ?xs" by (simp only: distinct_filter distinct_uniq)
  have "inj_on the (set (filter truthy ys))" for ys :: "string option list"
    by (rule inj_onI) (auto elim!: truthy.elims)
  then have "inj_on the (set ?xs)" .
  with d have "distinct (map the ?xs)" by (simp only: distinct_map simp_thms)
  then show ?thesis by (simp add: initialTokens_def comp_def)
qed

lemma connect_start_untried: "list_all (\<lambda>c. \<not> tried c) (tokens (connect_start s))"
  by (simp add: connect_start_def resetTokens_def emit_def list_all_iff)

lemma connect_start_values:
  "map token_value (tokens (connect_start s)) = map token_value (tokens s)"
  by (simp add: connect_start_def resetTokens_def emit_def comp_def)

lemma settled_fields:
  "map token_value (tokens (settle_connected w s1)) = map token_value (tokens s1)"
  "map token_value (tokens (settle_store_failed w e s1)) = map token_value (tokens s1)"
  "map token_value (tokens (settle_disconnected s1)) = map token_value (tokens s1)"
  "emitted (settle_connected w s1) = emitted s1 @ [Connected]"
  "emitted (settle_store_failed w e s1) = emitted s1 @ [Disconnected]"
  "emitted (settle_disconnected s1) = emitted s1 @ [Disconnected]"
  "\<not> isConnecting (settle_connected w s1)"
  "\<not> isConnecting (settle_store_failed w e s1)"
  "\<not> isConnecting (settle_disconnected s1)"
  by (simp_all add: settle_connected_def settle_store_failed_def settle_disconnected_def
      emit_def logError_def called_def)

lemma connect_cycle:
  assumes "connect w fuel s = Some (c, s')" and "\<not> isConnecting s"
  shows "c = Settled (Inr ()) \<and> \<not> isConnecting s' \<and>
         map token_value (tokens s') = map token_value (tokens s) \<and>
         (emitted s' = emitted s @ [Connecting, Connected] \<or>
          emitted s' = emitted s @ [Connecting, Disconnected])"
proof -
  from connect_settles [OF assms] obtain b s1 where
    p: "priv_connect w fuel (connect_start s) = Some (Inr b, s1)"
    and c: "c = Settled (Inr ())"
    and s': "s' = (if b then (case storeSet w (calls s1) of
                    None \<Rightarrow> settle_connected w s1
                  | Some e \<Rightarrow> settle_store_failed w e s1)
       else settle_disconnected s1)" by blast
  from priv_connect_same_candidates [OF p]
  have 1: "map token_value (tokens s1) = map token_value (tokens s)"
    and 2: "emitted s1 = emitted s @ [Connecting]"
    by (simp_all add: same_candidates_def connect_start_def resetTokens_def emit_def comp_def)
  from s' 1 2 c show ?thesis
    by (simp add: settled_fields split: option.splits)
qed

lemma connect_values:
  assumes "connect w fuel s = Some (c, s')"
  shows "map token_value (tokens s') = map token_value (tokens s)"
proof (cases "isConnecting s")
  case True
  with assms show ?thesis by (simp add: connect_def)
next
  case False
  with assms show ?thesis by (simp add: connect_cycle)
qed

lemma connectWithToken_tokens:
  "connectWithToken w fuel t s = Some (r, s') \<Longrightarrow> tokens s' = tokens s"
  using connectWithToken_unchanged [of w fuel t s r s'] by (simp add: unchanged_def)

lemma attempt_state_simps:
  "calls (provider_updateToken token s) = calls s"
  "calls (called w s) = Suc (calls s)"
  "calls (setTimeout w d s) = Suc (calls s)"
  "tokens (provider_updateToken token s) = tokens s"
  "tokens (called w s) = tokens s"
  "tokens (setTimeout w d s) = tokens s"
  "timers (provider_updateToken token s) = timers s"
  "timers (called w s) = timers s"
  "timers (setTimeout w d s) = timers s @ [d]"
  "pushed (provider_updateToken token s) = pushed s @ [token]"
  "pushed (called w s) = pushed s"
  "pushed (setTimeout w d s) = pushed s"
  "clock (provider_updateToken token s) = clock s"
  "clock (called w s) = clock s + took w (calls s)"
  "clock (setTimeout w d s) = clock s + nat d + took w (calls s)"
  by (simp_all add: provider_updateToken_def called_def setTimeout_def)

lemma connectWithToken_refused:
  assumes "providerConnect w (calls s) (sanitiseToken t) = Inl e"
    and "isNodeUp w (Suc (calls s))"
  shows "connectWithToken w (Suc fuel) t s =
     Some (Inr False, called w (called w (provider_updateToken (sanitiseToken t) s)))"
  using assms by (simp add: Let_def attempt_state_simps)

lemma connectWithToken_accepted:
  assumes "providerConnect w (calls s) (sanitiseToken t) = Inr ()"
    and "sanitiseToken t \<noteq> ''initial''"
  shows "connectWithToken w (Suc fuel) t s =
     Some (Inr True, called w (called w (provider_updateToken (sanitiseToken t) s)))"
  using assms by (simp add: Let_def attempt_state_simps)

lemma markTried_simps:
  "calls (markTried i s) = calls s"
  "pushed (markTried i s) = pushed s"
  "emitted (markTried i s) = emitted s"
  "tokens (markTried i s) = (tokens s)[i := (tokens s ! i)\<lparr>tried := True\<rparr>]"
  by (simp_all add: markTried_def)

subsection \<open>The next candidate\<close>

lemma findIndex_ge: "- 1 \<le> findIndex p xs"
  by (induction xs) (auto simp: Let_def)

lemma findIndex_none: "findIndex p xs < 0 \<longleftrightarrow> (\<forall>x\<in>set xs. \<not> p x)"
  using findIndex_ge [of p] by (induction xs) (auto simp: Let_def)

lemma findIndex_found:
  "0 \<le> findIndex p xs \<Longrightarrow> nat (findIndex p xs) < length xs \<and> p (xs ! nat (findIndex p xs))"
proof (induction xs)
  case Nil
  then show ?case by simp
next
  case (Cons x xs)
  show ?case
  proof (cases "p x")
    case True
    then show ?thesis by simp
  next
    case False
    with Cons.prems have nn: "0 \<le> findIndex p xs"
      by (auto simp: Let_def split: if_splits)
    with Cons.IH False show ?thesis
      by (simp add: Let_def nat_add_distrib)
  qed
qed

lemma getNextToken_None: "getNextToken s = None \<longleftrightarrow> list_all tried (tokens s)"
  by (simp add: getNextToken_def Let_def findIndex_none list_all_iff)

lemma getNextToken_Some:
  "getNextToken s = Some i \<Longrightarrow> i < length (tokens s) \<and> \<not> tried (tokens s ! i)"
  using findIndex_found [of "\<lambda>t. \<not> tried t" "tokens s"]
  by (auto simp: getNextToken_def Let_def split: if_splits)

lemma untried_mark:
  "i < length xs \<Longrightarrow> \<not> tried (xs ! i) \<Longrightarrow>
   Suc (length (filter (\<lambda>c. \<not> tried c) (xs[i := (xs ! i)\<lparr>tried := True\<rparr>]))) =
   length (filter (\<lambda>c. \<not> tried c) xs)"
proof (induction xs arbitrary: i)
  case Nil
  then show ?case by simp
next
  case (Cons x xs)
  then show ?case by (cases i) auto
qed

subsection \<open>The readiness wait and the error log\<close>


subsection \<open>Attempts, cycles and the readiness wait\<close>

lemma take_prefix_trans:
  assumes "take (length a) b = a" and "take (length b) c = b"
  shows "take (length a) c = a"
proof -
  from assms(1) obtain x where x: "b = a @ x" by (metis append_take_drop_id)
  from assms(2) obtain y where y: "c = b @ y" by (metis append_take_drop_id)
  from x y show ?thesis by simp
qed

lemma steps_continues: "closed_under_steps w continues"
  unfolding closed_under_steps_def
proof (intro conjI allI impI)
  show "continues s s" for s by (simp add: continues_def)
  show "continues s s2" if "continues s s1" "continues s1 s2" for s s1 s2
    using that unfolding continues_def
    by (meson take_prefix_trans le_trans)
  show "continues s (called w s)" for s
    by (simp add: continues_def called_def)
  show "continues s (setTimeout w d s)" for d s
    by (simp add: continues_def setTimeout_def)
  show "continues s (provider_updateToken (sanitiseToken t) s)" for t s
    by (simp add: continues_def provider_updateToken_def)
qed

lemma waitUntilNodeReady_mono:
  "waitUntilNodeReady w f left s = Some x \<Longrightarrow> f \<le> f' \<Longrightarrow>
   waitUntilNodeReady w f' left s = Some x"
proof (induction f arbitrary: f' left s)
  case 0
  then show ?case by simp
next
  case (Suc f)
  from Suc.prems(2) obtain g where g: "f' = Suc g" and fg: "f \<le> g" by (cases f') auto
  show ?case
  proof (cases "waitUntilNodeReady w (Suc f) left s = waitUntilNodeReady w (Suc g) left s")
    case True
    with Suc.prems(1) g show ?thesis by simp
  next
    case False
    then obtain t' s2 where
      a: "waitUntilNodeReady w (Suc f) left s = waitUntilNodeReady w f (Some t') s2"
      and b: "waitUntilNodeReady w (Suc g) left s = waitUntilNodeReady w g (Some t') s2"
      by (auto simp: Let_def split: if_splits sum.splits rejection.splits)
    from Suc.prems(1) a have "waitUntilNodeReady w f (Some t') s2 = Some x" by simp
    from Suc.IH [OF this fg] b g show ?thesis by simp
  qed
qed

lemma connectWithToken_mono_aux:
  "(\<forall>t s x f'. connectWithToken w f t s = Some x \<longrightarrow> f \<le> f' \<longrightarrow>
      connectWithToken w f' t s = Some x) \<and>
   (\<forall>s x f'. generateAuthorizationToken w f s = Some x \<longrightarrow> f \<le> f' \<longrightarrow>
      generateAuthorizationToken w f' s = Some x)"
proof (induction f)
  case 0
  show ?case by simp
next
  case (Suc f)
  from Suc have ihc: "\<And>t s x f'. connectWithToken w f t s = Some x \<Longrightarrow> f \<le> f' \<Longrightarrow>
      connectWithToken w f' t s = Some x" by blast
  from Suc have ihg: "\<And>s x f'. generateAuthorizationToken w f s = Some x \<Longrightarrow> f \<le> f' \<Longrightarrow>
      generateAuthorizationToken w f' s = Some x" by blast
  have gen: "generateAuthorizationToken w f' s = Some x"
    if h: "generateAuthorizationToken w (Suc f) s = Some x" and le: "Suc f \<le> f'" for s x f'
  proof -
    from le obtain g where g: "f' = Suc g" and fg: "f \<le> g" by (cases f') auto
    show ?thesis
    proof (cases "generateToken w (calls s)")
      case (Inl e)
      with h g show ?thesis by simp
    next
      case (Inr tok)
      with h have "connectWithToken w f tok (called w s) = Some x" by simp
      from ihc [OF this fg] Inr g show ?thesis by simp
    qed
  qed
  have con: "connectWithToken w f' t s = Some x"
    if h: "connectWithToken w (Suc f) t s = Some x" and le: "Suc f \<le> f'" for t s x f'
  proof -
    from le obtain g where g: "f' = Suc g" and fg: "f \<le> g" by (cases f') auto
    let ?tok = "sanitiseToken t"
    let ?s3 = "called w (called w (provider_updateToken ?tok s))"
    let ?inner = "\<lambda>n. (case providerConnect w (calls (provider_updateToken ?tok s)) ?tok of
                 Inr u \<Rightarrow> if ?tok = ''initial'' then generateAuthorizationToken w n ?s3
                          else Some (Inr True, ?s3)
               | Inl error \<Rightarrow> Some (Inr False, ?s3))"
    obtain r4 s4 where inner: "?inner f = Some (r4, s4)"
      using h by (cases "?inner f") (auto simp: Let_def)
    have inner': "?inner g = Some (r4, s4)"
    proof (cases "providerConnect w (calls (provider_updateToken ?tok s)) ?tok")
      case (Inl e)
      with inner show ?thesis by simp
    next
      case (Inr u)
      show ?thesis
      proof (cases "?tok = ''initial''")
        case True
        with inner Inr have "generateAuthorizationToken w f ?s3 = Some (r4, s4)" by simp
        from ihg [OF this fg] Inr True show ?thesis by simp
      next
        case False
        with inner Inr show ?thesis by simp
      qed
    qed
    have step: "connectWithToken w (Suc n) t s =
        (if (case r4 of Inr b \<Rightarrow> b | Inl error \<Rightarrow> False) then Some (Inr True, s4)
         else if \<not> isNodeUp w (calls (called w (provider_updateToken ?tok s))) then
           connectWithToken w n ?tok (setTimeout w (retryTimeout w (calls s4)) s4)
         else Some (Inr False, s4))"
      if "?inner n = Some (r4, s4)" for n
      using that by (simp add: Let_def del: generateAuthorizationToken.simps)
    show ?thesis
    proof (cases "\<not> (case r4 of Inr b \<Rightarrow> b | Inl error \<Rightarrow> False) \<and>
        \<not> isNodeUp w (calls (called w (provider_updateToken ?tok s)))")
      case False
      with h show ?thesis
        unfolding g step [OF inner] step [OF inner'] by auto
    next
      case True
      with h have "connectWithToken w f ?tok (setTimeout w (retryTimeout w (calls s4)) s4) = Some x"
        unfolding step [OF inner] by simp
      from ihc [OF this fg] True show ?thesis
        unfolding g step [OF inner'] by simp
    qed
  qed
  from gen con show ?case by blast
qed

lemma connectWithToken_mono:
  "connectWithToken w f t s = Some x \<Longrightarrow> f \<le> f' \<Longrightarrow> connectWithToken w f' t s = Some x"
  using connectWithToken_mono_aux [of w f] by blast

lemma connectWithToken_after_calls:
  assumes R: "closed_under_steps w R"
    and h: "connectWithToken w fuel t s = Some (r, s')"
  shows "R (called w (called w (provider_updateToken (sanitiseToken t) s))) s'"
proof -
  from R have R_refl: "\<And>s. R s s"
    and R_trans: "\<And>s s1 s2. R s s1 \<Longrightarrow> R s1 s2 \<Longrightarrow> R s s2"
    and timer: "\<And>d s. R s (setTimeout w d s)"
    unfolding closed_under_steps_def by blast+
  have ihc: "\<And>f t s r s'. connectWithToken w f t s = Some (r, s') \<Longrightarrow> R s s'"
    using connectWithToken_rel_aux [OF R] by blast
  have ihg: "\<And>f s r s'. generateAuthorizationToken w f s = Some (r, s') \<Longrightarrow> R s s'"
    using connectWithToken_rel_aux [OF R] by blast
  from h obtain f where f: "fuel = Suc f" by (cases fuel) auto
  let ?tok = "sanitiseToken t"
  let ?s3 = "called w (called w (provider_updateToken ?tok s))"
  let ?inner = "(case providerConnect w (calls (provider_updateToken ?tok s)) ?tok of
               Inr u \<Rightarrow> if ?tok = ''initial'' then generateAuthorizationToken w f ?s3
                        else Some (Inr True, ?s3)
             | Inl error \<Rightarrow> Some (Inr False, ?s3))"
  obtain r4 s4 where inner: "?inner = Some (r4, s4)"
    using h unfolding f by (cases ?inner) (auto simp: Let_def)
  have s4: "R ?s3 s4"
    using inner by (auto split: sum.splits if_splits intro: R_refl ihg)
  have "R s4 s'"
  proof (cases "s' = s4")
    case True
    then show ?thesis by (simp add: R_refl)
  next
    case False
    with h inner have "connectWithToken w f ?tok (setTimeout w (retryTimeout w (calls s4)) s4) = Some (r, s')"
      unfolding f by (auto simp: Let_def split: if_splits)
    then have "R (setTimeout w (retryTimeout w (calls s4)) s4) s'" by (rule ihc)
    then show ?thesis by (rule R_trans [OF timer])
  qed
  with s4 show ?thesis by (blast intro: R_trans)
qed

lemma connectWithToken_retry:
  assumes "providerConnect w (calls s) (sanitiseToken t) = Inl e"
    and "\<not> isNodeUp w (calls s + 1)"
  shows "connectWithToken w (Suc fuel) t s =
      connectWithToken w fuel (sanitiseToken t)
        (setTimeout w (retryTimeout w (calls s + 2))
          (called w (called w (provider_updateToken (sanitiseToken t) s))))"
  using assms by (simp add: Let_def attempt_state_simps)

lemma connectWithToken_never:
  assumes "\<forall>k. isl (providerConnect w k tok)" and "\<forall>k. \<not> isNodeUp w k"
  shows "sanitiseToken t = tok \<Longrightarrow> connectWithToken w fuel t s = None"
proof (induction fuel arbitrary: t s)
  case 0
  show ?case by simp
next
  case (Suc fuel)
  from assms(1) obtain e where "providerConnect w (calls s) (sanitiseToken t) = Inl e"
    unfolding Suc.prems by (metis isl_def)
  moreover from assms(2) have "\<not> isNodeUp w (calls s + 1)" by simp
  ultimately have "connectWithToken w (Suc fuel) t s =
      connectWithToken w fuel (sanitiseToken t)
        (setTimeout w (retryTimeout w (calls s + 2))
          (called w (called w (provider_updateToken (sanitiseToken t) s))))"
    by (rule connectWithToken_retry)
  also have "\<dots> = None"
    by (rule Suc.IH) (simp add: sanitiseToken_idem Suc.prems [symmetric])
  finally show ?case .
qed


lemma tried_in_vain_Suc:
  assumes "tried_in_vain w f (Suc n) s = Some s1"
  obtains i s2 where "getNextToken s = Some i"
    and "connectWithToken w f (token_value (tokens s ! i)) (markTried i s) = Some (Inr False, s2)"
    and "tried_in_vain w f n s2 = Some s1"
  using assms by (auto split: option.splits if_splits)

lemma priv_connect_wrap:
  "(case priv_connect w fuel s of
      None \<Rightarrow> None
    | Some (Inl error, s3) \<Rightarrow> Some (Inr False, logError error s3)
    | Some (Inr conn, s3) \<Rightarrow> Some (Inr conn, s3)) = priv_connect w fuel s"
proof (cases "priv_connect w fuel s")
  case None
  then show ?thesis by simp
next
  case (Some x)
  obtain r s3 where x: "x = (r, s3)" by (cases x)
  from priv_connect_resolves [OF Some [unfolded x]] obtain b where "r = Inr b" by blast
  with Some x show ?thesis by simp
qed

lemma priv_connect_invalid:
  assumes "getNextToken s = Some i"
    and "connectWithToken w fuel (token_value (tokens s ! i)) (markTried i s) = Some (Inr False, s2)"
  shows "priv_connect w (Suc fuel) s = priv_connect w fuel s2"
  using assms priv_connect_wrap [of w fuel s2]
  by (simp del: connectWithToken.simps priv_connect.simps add: priv_connect.simps(2))

lemma priv_connect_valid:
  assumes "getNextToken s = Some i"
    and "connectWithToken w fuel (token_value (tokens s ! i)) (markTried i s) = Some (Inr True, s2)"
    and "waitUntilNodeReady w fuel None s2 = Some (rw, s3)"
  shows "priv_connect w (Suc fuel) s =
     Some (case rw of Inl error \<Rightarrow> (Inr False, logError error s3) | Inr ready \<Rightarrow> (Inr True, s3))"
  using assms
  by (simp del: connectWithToken.simps waitUntilNodeReady.simps split: sum.splits)

lemma tried_in_vain_priv_connect:
  "tried_in_vain w f n s = Some s1 \<Longrightarrow> f \<le> F \<Longrightarrow>
   priv_connect w (n + F) s = priv_connect w F s1"
proof (induction n arbitrary: s)
  case 0
  then show ?case by simp
next
  case (Suc n)
  from tried_in_vain_Suc [OF Suc.prems(1)] obtain i s2 where
    n: "getNextToken s = Some i"
    and c: "connectWithToken w f (token_value (tokens s ! i)) (markTried i s) = Some (Inr False, s2)"
    and t: "tried_in_vain w f n s2 = Some s1" by blast
  from Suc.prems(2) have "f \<le> n + F" by simp
  from connectWithToken_mono [OF c this]
  have "priv_connect w (Suc (n + F)) s = priv_connect w (n + F) s2"
    by (rule priv_connect_invalid [OF n])
  also have "\<dots> = priv_connect w F s1" by (rule Suc.IH [OF t Suc.prems(2)])
  finally show ?case by simp
qed

lemma tried_in_vain_frame:
  "tried_in_vain w f n s = Some s1 \<Longrightarrow>
   isConnecting s1 = isConnecting s \<and> needsToken s1 = needsToken s \<and>
   sysuiToken s1 = sysuiToken s \<and> emitted s1 = emitted s \<and> errors s1 = errors s \<and>
   map token_value (tokens s1) = map token_value (tokens s) \<and>
   length (filter (\<lambda>c. \<not> tried c) (tokens s1)) + n =
     length (filter (\<lambda>c. \<not> tried c) (tokens s))"
proof (induction n arbitrary: s)
  case 0
  then show ?case by simp
next
  case (Suc n)
  from tried_in_vain_Suc [OF Suc.prems(1)] obtain i s2 where
    n: "getNextToken s = Some i"
    and c: "connectWithToken w f (token_value (tokens s ! i)) (markTried i s) = Some (Inr False, s2)"
    and t: "tried_in_vain w f n s2 = Some s1" by blast
  from getNextToken_Some [OF n] have i: "i < length (tokens s)" "\<not> tried (tokens s ! i)"
    by simp_all
  from connectWithToken_unchanged [OF c]
  have u: "isConnecting s2 = isConnecting s" "needsToken s2 = needsToken s"
    "sysuiToken s2 = sysuiToken s" "emitted s2 = emitted s" "errors s2 = errors s"
    "tokens s2 = (tokens s)[i := (tokens s ! i)\<lparr>tried := True\<rparr>]"
    by (simp_all add: unchanged_def markTried_def)
  from untried_mark [OF i] u(6)
  have "Suc (length (filter (\<lambda>c. \<not> tried c) (tokens s2))) =
        length (filter (\<lambda>c. \<not> tried c) (tokens s))" by simp
  with Suc.IH [OF t] u show ?case by (simp add: map_token_value_mark)
qed

lemma tried_in_vain_refusing:
  assumes rej: "\<forall>k t. isl (providerConnect w k t)" and up: "\<forall>k. isNodeUp w k"
  shows "n \<le> length (filter (\<lambda>c. \<not> tried c) (tokens s)) \<Longrightarrow>
     \<exists>s1. tried_in_vain w 1 n s = Some s1"
proof (induction n arbitrary: s)
  case 0
  show ?case by simp
next
  case (Suc n)
  from Suc.prems have "filter (\<lambda>c. \<not> tried c) (tokens s) \<noteq> []" by auto
  then have "\<not> list_all tried (tokens s)"
    by (simp add: list_all_iff filter_empty_conv)
  then obtain i where n: "getNextToken s = Some i"
    using getNextToken_None [of s] by (cases "getNextToken s") auto
  let ?t = "token_value (tokens s ! i)"
  let ?s2 = "called w (called w (provider_updateToken (sanitiseToken ?t) (markTried i s)))"
  from getNextToken_Some [OF n] have i: "i < length (tokens s)" "\<not> tried (tokens s ! i)"
    by simp_all
  from rej obtain e where "providerConnect w (calls (markTried i s)) (sanitiseToken ?t) = Inl e"
    by (metis isl_def)
  moreover from up have "isNodeUp w (Suc (calls (markTried i s)))" by simp
  ultimately have c: "connectWithToken w (Suc 0) ?t (markTried i s) = Some (Inr False, ?s2)"
    by (rule connectWithToken_refused)
  have "Suc (length (filter (\<lambda>c. \<not> tried c) (tokens ?s2))) =
        length (filter (\<lambda>c. \<not> tried c) (tokens s))"
    using untried_mark [OF i] by (simp add: attempt_state_simps markTried_simps)
  with Suc.prems have "n \<le> length (filter (\<lambda>c. \<not> tried c) (tokens ?s2))" by simp
  from Suc.IH [OF this] obtain s1 where "tried_in_vain w 1 n ?s2 = Some s1" by blast
  with n c show ?case
    by (simp del: connectWithToken.simps)
qed

lemma connect_start_fields:
  "isConnecting (connect_start s)" "needsToken (connect_start s) = needsToken s"
  "sysuiToken (connect_start s) = sysuiToken s" "emitted (connect_start s) = emitted s @ [Connecting]"
  "errors (connect_start s) = errors s" "calls (connect_start s) = calls s"
  "pushed (connect_start s) = pushed s"
  "tokens (connect_start s) = map (\<lambda>c. c\<lparr>tried := False\<rparr>) (tokens s)"
  "length (filter (\<lambda>c. \<not> tried c) (tokens (connect_start s))) = length (tokens s)"
  by (simp_all add: connect_start_def resetTokens_def emit_def)

lemma cycle_exhausted:
  assumes idle: "\<not> isConnecting s"
    and t: "tried_in_vain w f (length (tokens s)) (connect_start s) = Some s1"
    and fuel: "f + length (tokens s) \<le> fuel" "length (tokens s) < fuel"
  shows "\<exists>s'. connect w fuel s = Some (Settled (Inr ()), s') \<and>
           \<not> isConnecting s' \<and> needsToken s' \<and>
           emitted s' = emitted s @ [Connecting, Disconnected] \<and>
           list_all tried (tokens s') \<and>
           map token_value (tokens s') = map token_value (tokens s) \<and>
           errors s' = errors s \<and> sysuiToken s' = sysuiToken s"
proof -
  define F where "F = fuel - length (tokens s)"
  from fuel have F: "fuel = length (tokens s) + F" "f \<le> F" "0 < F" by (simp_all add: F_def)
  from tried_in_vain_frame [OF t]
  have fr: "sysuiToken s1 = sysuiToken s" "emitted s1 = emitted s @ [Connecting]"
    "errors s1 = errors s" "map token_value (tokens s1) = map token_value (tokens s)"
    "length (filter (\<lambda>c. \<not> tried c) (tokens s1)) = 0"
    by (simp_all add: connect_start_fields connect_start_values)
  from fr(5) have all: "list_all tried (tokens s1)"
    by (simp add: list_all_iff filter_empty_conv)
  then have "getNextToken s1 = None" by (simp only: getNextToken_None)
  moreover from F(3) obtain F' where "F = Suc F'" by (cases F) auto
  ultimately have "priv_connect w F s1 = Some (Inr False, s1)" by simp
  with tried_in_vain_priv_connect [OF t F(2)]
  have "priv_connect w fuel (connect_start s) = Some (Inr False, s1)" by (simp add: F(1))
  from connect_idle [OF idle this]
  have "connect w fuel s = Some (Settled (Inr ()), settle_disconnected s1)" by simp
  moreover from fr all have "\<not> isConnecting (settle_disconnected s1)"
    "needsToken (settle_disconnected s1)"
    "emitted (settle_disconnected s1) = emitted s @ [Connecting, Disconnected]"
    "list_all tried (tokens (settle_disconnected s1))"
    "map token_value (tokens (settle_disconnected s1)) = map token_value (tokens s)"
    "errors (settle_disconnected s1) = errors s"
    "sysuiToken (settle_disconnected s1) = sysuiToken s"
    by (simp_all add: settle_disconnected_def emit_def)
  ultimately show ?thesis by blast
qed

lemma waitUntilNodeReady_transport:
  "waitUntilNodeReady w fuel left s = Some (r, s') \<Longrightarrow>
   providerToken s' = providerToken s \<and> pushed s' = pushed s"
proof (induction fuel arbitrary: left s)
  case 0
  then show ?case by simp
next
  case (Suc fuel)
  let ?s2 = "setTimeout w (backoff (random w (calls (called w s)))) (called w (called w s))"
  show ?case
  proof (cases "s' = s \<or> s' = called w s")
    case True
    then show ?thesis by (auto simp: called_def)
  next
    case False
    with Suc.prems obtain t' where "waitUntilNodeReady w fuel (Some t') ?s2 = Some (r, s')"
      by (auto simp: Let_def split: if_splits sum.splits rejection.splits)
    from Suc.IH [OF this] show ?thesis by (simp add: called_def setTimeout_def)
  qed
qed

lemma connectWithToken_holds:
  "connectWithToken w fuel t s = Some (Inr True, s') \<Longrightarrow> sanitiseToken t \<noteq> ''initial'' \<Longrightarrow>
   providerToken s' = Some (sanitiseToken t)"
proof (induction fuel arbitrary: t s)
  case 0
  then show ?case by simp
next
  case (Suc fuel)
  let ?tok = "sanitiseToken t"
  let ?s3 = "called w (called w (provider_updateToken ?tok s))"
  show ?case
  proof (cases "s' = ?s3")
    case True
    then show ?thesis by (simp add: called_def provider_updateToken_def)
  next
    case False
    with Suc.prems have
      "connectWithToken w fuel ?tok (setTimeout w (retryTimeout w (calls ?s3)) ?s3) = Some (Inr True, s')"
      by (auto simp: Let_def split: if_splits sum.splits)
    from Suc.IH [OF this] Suc.prems(2) show ?thesis by (simp add: sanitiseToken_idem)
  qed
qed

lemma cycle_valid:
  assumes t: "tried_in_vain w f n (connect_start s) = Some s1"
    and nx: "getNextToken s1 = Some i"
    and c: "connectWithToken w f (token_value (tokens s1 ! i)) (markTried i s1) = Some (Inr True, s4)"
    and wt: "waitUntilNodeReady w f None s4 = Some (rw, s5)"
    and fuel: "f + n < fuel"
  shows "priv_connect w fuel (connect_start s) =
     Some (case rw of Inl error \<Rightarrow> (Inr False, logError error s5) | Inr ready \<Rightarrow> (Inr True, s5))"
    and "emitted s5 = emitted s @ [Connecting]" and "errors s5 = errors s"
    and "sysuiToken s5 = sysuiToken s" and "needsToken s5 = needsToken s"
    and "tokens s5 = (tokens s1)[i := (tokens s1 ! i)\<lparr>tried := True\<rparr>]"
    and "providerToken s5 = providerToken s4"
proof -
  define F where "F = fuel - n - 1"
  from fuel have F: "fuel = n + Suc F" "f \<le> F" "f \<le> Suc F" by (simp_all add: F_def)
  have "priv_connect w (Suc F) s1 =
     Some (case rw of Inl error \<Rightarrow> (Inr False, logError error s5) | Inr ready \<Rightarrow> (Inr True, s5))"
    by (rule priv_connect_valid
        [OF nx connectWithToken_mono [OF c F(2)] waitUntilNodeReady_mono [OF wt F(2)]])
  with tried_in_vain_priv_connect [OF t F(3)]
  show "priv_connect w fuel (connect_start s) =
     Some (case rw of Inl error \<Rightarrow> (Inr False, logError error s5) | Inr ready \<Rightarrow> (Inr True, s5))"
    by (simp add: F(1))
  from tried_in_vain_frame [OF t]
  have 1: "emitted s1 = emitted s @ [Connecting]" "errors s1 = errors s"
    "sysuiToken s1 = sysuiToken s" "needsToken s1 = needsToken s"
    by (simp_all add: connect_start_fields)
  from connectWithToken_unchanged [OF c]
  have 4: "emitted s4 = emitted s1" "errors s4 = errors s1" "sysuiToken s4 = sysuiToken s1"
    "needsToken s4 = needsToken s1" "tokens s4 = (tokens s1)[i := (tokens s1 ! i)\<lparr>tried := True\<rparr>]"
    by (simp_all add: unchanged_def markTried_def)
  from waitUntilNodeReady_unchanged [OF wt]
  have 5: "emitted s5 = emitted s4" "errors s5 = errors s4" "sysuiToken s5 = sysuiToken s4"
    "needsToken s5 = needsToken s4" "tokens s5 = tokens s4"
    by (simp_all add: unchanged_def)
  from 1 4 5 show "emitted s5 = emitted s @ [Connecting]" and "errors s5 = errors s"
    and "sysuiToken s5 = sysuiToken s" and "needsToken s5 = needsToken s"
    and "tokens s5 = (tokens s1)[i := (tokens s1 ! i)\<lparr>tried := True\<rparr>]"
    by simp_all
  from waitUntilNodeReady_transport [OF wt] show "providerToken s5 = providerToken s4" by simp
qed

lemma ulp_below_form: "\<exists>k. ulp_below n (1 / 2 ^ j) x = 1 / 2 ^ k"
proof (induction n arbitrary: j)
  case 0
  show ?case by auto
next
  case (Suc n)
  from Suc [of "Suc j"] obtain k where "ulp_below n (1 / 2 ^ Suc j) x = 1 / 2 ^ k" by blast
  then show ?case by (auto simp: field_simps)
qed

lemma ulp_form: "\<exists>k. ulp x = 1 / 2 ^ k"
  unfolding ulp_def by (rule ulp_below_form)

lemma round_half_even_ge: "of_int m \<le> q \<Longrightarrow> m \<le> round_half_even q"
proof -
  assume "of_int m \<le> q"
  then have "m \<le> \<lfloor>q\<rfloor>" by (simp add: le_floor_iff)
  then show ?thesis by (simp add: round_half_even_def Let_def)
qed

lemma round_half_even_le: "q \<le> of_int m \<Longrightarrow> round_half_even q \<le> m"
proof -
  assume h: "q \<le> of_int m"
  have "\<lfloor>q\<rfloor> \<le> m" using h by (simp add: floor_le_iff)
  moreover have "\<lfloor>q\<rfloor> + 1 \<le> m" if "1 / 2 \<le> q - of_int \<lfloor>q\<rfloor>"
  proof -
    from that have "of_int \<lfloor>q\<rfloor> < q" by simp
    with h have "of_int \<lfloor>q\<rfloor> < (of_int m :: real)" by simp
    then show ?thesis by simp
  qed
  ultimately show ?thesis
    by (auto simp: round_half_even_def Let_def)
qed

lemma to_double_bounds:
  assumes "of_int a \<le> x" and "x \<le> of_int b"
  shows "of_int a \<le> to_double x \<and> to_double x \<le> of_int b"
proof -
  obtain k where u: "ulp x = 1 / 2 ^ k" using ulp_form by blast
  have q: "x / ulp x = x * 2 ^ k" by (simp add: u)
  have "(of_int (a * 2 ^ k) :: real) \<le> x * 2 ^ k" using assms(1) by simp
  then have lo: "a * 2 ^ k \<le> round_half_even (x * 2 ^ k)" by (rule round_half_even_ge)
  have "x * 2 ^ k \<le> (of_int (b * 2 ^ k) :: real)" using assms(2) by simp
  then have hi: "round_half_even (x * 2 ^ k) \<le> b * 2 ^ k" by (rule round_half_even_le)
  from lo have "(of_int (a * 2 ^ k) :: real) \<le> of_int (round_half_even (x * 2 ^ k))"
    by (simp only: of_int_le_iff)
  then have 1: "of_int a \<le> of_int (round_half_even (x * 2 ^ k)) / (2 ^ k :: real)"
    by (simp add: field_simps)
  from hi have "(of_int (round_half_even (x * 2 ^ k)) :: real) \<le> of_int (b * 2 ^ k)"
    by (simp only: of_int_le_iff)
  then have 2: "of_int (round_half_even (x * 2 ^ k)) / (2 ^ k :: real) \<le> of_int b"
    by (simp add: field_simps)
  from 1 2 assms show ?thesis by (simp add: to_double_def Let_def q u)
qed

lemma backoff_range:
  assumes "0 \<le> r" and "r < 1"
  shows "250 \<le> backoff r \<and> backoff r \<le> 750"
proof -
  from assms have "of_int 0 \<le> 500 * r" "500 * r \<le> of_int 500" by simp_all
  from to_double_bounds [OF this] have "of_int 250 \<le> 250 + to_double (500 * r)"
    "250 + to_double (500 * r) \<le> of_int 750" by simp_all
  from to_double_bounds [OF this] show ?thesis
    by (simp add: backoff_def le_floor_iff floor_le_iff)
qed

lemma waitUntilNodeReady_round:
  assumes "netChain w (calls s) = Inl (Err ''NETWORK_DISABLED'')" and "0 < t"
  shows "\<exists>s2. waitUntilNodeReady w (Suc fuel) (Some t) s =
           waitUntilNodeReady w fuel (Some (t - int (round_duration w (calls s)))) s2 \<and>
         calls s2 = calls s + 3 \<and> timers s2 = timers s @ [round_delay w (calls s)] \<and>
         clock s2 = clock s + round_duration w (calls s)"
proof -
  let ?s2 = "setTimeout w (round_delay w (calls s)) (called w (called w s))"
  have c: "clock ?s2 = clock s + round_duration w (calls s)"
    by (simp add: round_duration_def attempt_state_simps)
  have "waitUntilNodeReady w (Suc fuel) (Some t) s =
      waitUntilNodeReady w fuel (Some (t - (int (clock ?s2) - int (clock s)))) ?s2"
    using assms by (simp add: Let_def round_delay_def attempt_state_simps)
  then have "waitUntilNodeReady w (Suc fuel) (Some t) s =
      waitUntilNodeReady w fuel (Some (t - int (round_duration w (calls s)))) ?s2"
    by (simp only: c) simp
  moreover have "calls ?s2 = calls s + 3" "timers ?s2 = timers s @ [round_delay w (calls s)]"
    by (simp_all add: attempt_state_simps)
  ultimately show ?thesis using c by blast
qed

lemma waitUntilNodeReady_rounds:
  "\<forall>k. netChain w (calls s + 3 * k) = Inl (Err ''NETWORK_DISABLED'') \<Longrightarrow>
   \<forall>k. 250 \<le> round_delay w (calls s + 3 * k) \<Longrightarrow>
   0 < t \<Longrightarrow> t \<le> 250 * (int fuel - 1) \<Longrightarrow>
     \<exists>s' n. waitUntilNodeReady w fuel (Some t) s = Some (Inr True, s') \<and> 0 < n \<and>
       calls s' = calls s + 3 * n \<and>
       timers s' = timers s @ map (\<lambda>i. round_delay w (calls s + 3 * i)) [0..<n] \<and>
       clock s' = clock s + (\<Sum>i<n. round_duration w (calls s + 3 * i)) \<and>
       int (\<Sum>i<n - 1. round_duration w (calls s + 3 * i)) < t \<and>
       t \<le> int (\<Sum>i<n. round_duration w (calls s + 3 * i))"
proof (induction fuel arbitrary: t s)
  case 0
  then show ?case by simp
next
  case (Suc fuel)
  define dur where "dur = round_duration w (calls s)"
  from Suc.prems(1) have nd: "netChain w (calls s) = Inl (Err ''NETWORK_DISABLED'')"
    by (metis add.right_neutral mult_0_right)
  from waitUntilNodeReady_round [OF nd Suc.prems(3), of fuel] obtain s2 where
    step: "waitUntilNodeReady w (Suc fuel) (Some t) s =
           waitUntilNodeReady w fuel (Some (t - int dur)) s2"
    and c2: "calls s2 = calls s + 3" and t2: "timers s2 = timers s @ [round_delay w (calls s)]"
    and k2: "clock s2 = clock s + dur"
    unfolding dur_def by blast
  from Suc.prems(2) have "250 \<le> round_delay w (calls s)"
    by (metis add.right_neutral mult_0_right)
  then have dur: "250 \<le> int dur" by (simp add: dur_def round_duration_def)
  from Suc.prems(3,4) obtain fl where fl: "fuel = Suc fl" by (cases fuel) auto
  show ?case
  proof (cases "t - int dur \<le> 0")
    case True
    then have "waitUntilNodeReady w fuel (Some (t - int dur)) s2 = Some (Inr True, s2)"
      unfolding fl by simp
    then have "waitUntilNodeReady w (Suc fuel) (Some t) s = Some (Inr True, s2)"
      by (simp only: step)
    moreover have "(\<Sum>i<Suc 0. round_duration w (calls s + 3 * i)) = dur"
      by (simp add: dur_def)
    ultimately show ?thesis
      using True Suc.prems(3) c2 t2 k2
      by (intro exI [of _ s2] exI [of _ "Suc 0"]) (simp add: dur_def)
  next
    case False
    have shift: "calls s2 + 3 * k = calls s + 3 * Suc k" for k by (simp add: c2)
    from Suc.prems(1) have a: "\<forall>k. netChain w (calls s2 + 3 * k) = Inl (Err ''NETWORK_DISABLED'')"
      unfolding shift by blast
    from Suc.prems(2) have b: "\<forall>k. 250 \<le> round_delay w (calls s2 + 3 * k)"
      unfolding shift by blast
    from False have c: "0 < t - int dur" by simp
    from Suc.prems(4) dur have d: "t - int dur \<le> 250 * (int fuel - 1)" by simp
    from Suc.IH [OF a b c d] obtain s' n where
      r: "waitUntilNodeReady w fuel (Some (t - int dur)) s2 = Some (Inr True, s')"
      and n: "0 < n" and cs: "calls s' = calls s2 + 3 * n"
      and ts: "timers s' = timers s2 @ map (\<lambda>i. round_delay w (calls s2 + 3 * i)) [0..<n]"
      and ks: "clock s' = clock s2 + (\<Sum>i<n. round_duration w (calls s2 + 3 * i))"
      and lo: "int (\<Sum>i<n - 1. round_duration w (calls s2 + 3 * i)) < t - int dur"
      and hi: "t - int dur \<le> int (\<Sum>i<n. round_duration w (calls s2 + 3 * i))"
      by blast
    from n obtain m where m: "n = Suc m" by (cases n) auto
    have sum: "(\<Sum>i<Suc j. round_duration w (calls s + 3 * i)) =
        dur + (\<Sum>i<j. round_duration w (calls s2 + 3 * i))" for j
      unfolding shift dur_def by (simp only: sum.lessThan_Suc_shift, simp?)
    have "timers s' = timers s @ map (\<lambda>i. round_delay w (calls s + 3 * i)) [0..<Suc n]"
      unfolding ts t2 shift by (simp only: map_upt_Suc, simp?)
    moreover have "calls s' = calls s + 3 * Suc n" by (simp add: cs c2)
    moreover have "clock s' = clock s + (\<Sum>i<Suc n. round_duration w (calls s + 3 * i))"
      by (simp only: sum ks k2, simp?)
    moreover have "int (\<Sum>i<Suc n - 1. round_duration w (calls s + 3 * i)) < t"
      using lo unfolding m by (simp only: diff_Suc_1 sum, simp?)
    moreover have "t \<le> int (\<Sum>i<Suc n. round_duration w (calls s + 3 * i))"
      using hi by (simp only: sum, simp?)
    moreover have "waitUntilNodeReady w (Suc fuel) (Some t) s = Some (Inr True, s')"
      by (simp only: step r)
    ultimately show ?thesis
      by (intro exI [of _ s'] exI [of _ "Suc n"]) simp
  qed
qed

lemma round_duration_sum_ge:
  "\<forall>k. 250 \<le> round_delay w (c + 3 * k) \<Longrightarrow>
   250 * m \<le> (\<Sum>i<m. round_duration w (c + 3 * i))"
proof (induction m)
  case 0
  show ?case by simp
next
  case (Suc m)
  from Suc.prems have "250 \<le> round_delay w (c + 3 * m)" by blast
  then have "250 \<le> round_duration w (c + 3 * m)" by (simp add: round_duration_def)
  with Suc.IH [OF Suc.prems] show ?case by simp
qed





subsection \<open>The properties of the specification\<close>

text \<open>
  \<^bold>\<open>C1.\<close> While \<open>isConnecting\<close> is true, \<open>connect()\<close> returns at once: no field
  changes, no event is emitted, no collaborator is called, no promise is made. The
  flag is true from the start of a cycle until \<open>connect()\<close> settles, so a second
  cycle cannot start while one runs: the state \<open>s\<close> below is either any state with
  the flag set, or the state in which the attempt chain of a cycle started from any
  \<open>s0\<close> ends.
\<close>

theorem connect_while_connecting_noop:
  assumes "isConnecting s \<or> priv_connect w0 fuel0 (connect_start s0) = Some (r, s)"
  shows "connect w fuel s = Some (Returned, s)"
proof -
  have "isConnecting s"
  proof (rule disjE [OF assms])
    assume "priv_connect w0 fuel0 (connect_start s0) = Some (r, s)"
    then have "same_candidates (connect_start s0) s"
      by (rule priv_connect_same_candidates)
    then show ?thesis
      by (simp add: same_candidates_def connect_start_def resetTokens_def emit_def)
  qed
  then show ?thesis by (simp add: connect_def)
qed

theorem connect_while_connecting_noop_witness:
  "awaiting =
     called refusing (called refusing
       (provider_updateToken ''initial'' (markTried 0 (connect_start fresh)))) \<and>
   isConnecting awaiting \<and> connect refusing 3 awaiting = Some (Returned, awaiting) \<and>
   priv_connect refusing 3 (connect_start fresh) = Some (Inr False, chain_end) \<and>
   connect (accepting [''initial'']) 7 chain_end = Some (Returned, chain_end)"
proof -
  have 0: "awaiting =
     called refusing (called refusing
       (provider_updateToken ''initial'' (markTried 0 (connect_start fresh))))"
    by code_simp
  have 1: "isConnecting awaiting" by code_simp
  have 2: "priv_connect refusing 3 (connect_start fresh) = Some (Inr False, chain_end)"
    by code_simp
  from 1 have "connect refusing 3 awaiting = Some (Returned, awaiting)"
    by (intro connect_while_connecting_noop disjI1)
  moreover from 2 have "connect (accepting [''initial'']) 7 chain_end = Some (Returned, chain_end)"
    by (intro connect_while_connecting_noop disjI2)
  ultimately show ?thesis using 0 1 2 by simp
qed

text \<open>
  \<^bold>\<open>C10.\<close> Every token handed to the transport's \<open>updateToken\<close> consists of
  characters of \<open>[a-zA-Z0-9]\<close> only, whichever method ran and wherever the token came
  from: the store and the constructor's argument (through \<open>init\<close>), the sentinel,
  the token the daemon generated (any \<open>generateToken\<close> of the world), or the public
  \<open>updateToken\<close>. A manager just built has pushed nothing before.
\<close>

theorem transport_tokens_sanitised:
  assumes "connectWithToken w fuel t s = Some (r, s') \<or>
           connect w fuel s = Some (c, s') \<or>
           updateToken w fuel t s = Some (c, s') \<or>
           (s = init stored nextToken now \<and>
            constructor w fuel stored nextToken now = Some (c, s'))"
  shows "sanitised_pushes s s'"
proof -
  have upd: "sanitised_pushes s s'" if "updateToken w fuel t s = Some (c, s')"
  proof -
    from that have "sanitised_pushes
        (s\<lparr>tokens := [\<lparr>token_value = sanitiseToken t, tried = False\<rparr>] @ tokens s\<rparr>) s'"
      unfolding updateToken_def Let_def by (rule connect_sanitised_pushes)
    then show ?thesis by (simp add: sanitised_pushes_def pushed_since_def)
  qed
  from assms show ?thesis
    using connectWithToken_rel_aux [OF steps_sanitised_pushes, of w fuel]
      connect_sanitised_pushes [of w fuel s c s'] upd
    by (auto simp: constructor_def)
qed

theorem transport_tokens_sanitised_witness:
  "constructor (accepting [''initial'', ''g1'']) 8 (Some ''a-1'') (Some ''b_2'') 0 =
     Some (Settled (Inr ()), after_generated) \<and>
   sanitised_pushes (init (Some ''a-1'') (Some ''b_2'') 0) after_generated \<and>
   pushed_since (init (Some ''a-1'') (Some ''b_2'') 0) after_generated =
     [''a1'', ''b2'', ''initial'', ''g1'']"
proof -
  have 1: "constructor (accepting [''initial'', ''g1'']) 8 (Some ''a-1'') (Some ''b_2'') 0 =
     Some (Settled (Inr ()), after_generated)"
    by code_simp
  have 2: "pushed_since (init (Some ''a-1'') (Some ''b_2'') 0) after_generated =
     [''a1'', ''b2'', ''initial'', ''g1'']"
    by code_simp
  from 1 have "sanitised_pushes (init (Some ''a-1'') (Some ''b_2'') 0) after_generated"
    using transport_tokens_sanitised
      [of "accepting [''initial'', ''g1'']" 8 "[]" "init (Some ''a-1'') (Some ''b_2'') 0"
        "Inr True" after_generated "Settled (Inr ())" "Some ''a-1''" "Some ''b_2''" 0]
    by simp
  with 1 2 show ?thesis by simp
qed

text \<open>
  \<^bold>\<open>C4\<close>, as amended. \<open>updateToken(t)\<close> prepends the candidate whose value is \<open>t\<close>
  without its characters outside \<open>[a-zA-Z0-9]\<close> and whose \<open>tried\<close> flag is false,
  and then calls \<open>connect()\<close>. While a cycle is in flight that call does nothing:
  the candidate stays in front, untried, and no cycle starts. Otherwise a cycle
  starts (a \<open>connecting\<close> event) and, when it settles, the list holds the new value
  in front of the old ones. \<open>updateToken("ab-12_cd!")\<close> gives the value \<open>ab12cd\<close>.
\<close>

theorem updateToken_prepends_sanitised:
  "updateToken w fuel t s =
     connect w fuel (s\<lparr>tokens := \<lparr>token_value = filter alnum t, tried = False\<rparr> # tokens s\<rparr>) \<and>
   (isConnecting s \<longrightarrow>
      updateToken w fuel t s =
        Some (Returned, s\<lparr>tokens := \<lparr>token_value = filter alnum t, tried = False\<rparr> # tokens s\<rparr>)) \<and>
   (\<not> isConnecting s \<and> updateToken w fuel t s = Some (c, s') \<longrightarrow>
      c = Settled (Inr ()) \<and> \<not> isConnecting s' \<and>
      map token_value (tokens s') = filter alnum t # map token_value (tokens s) \<and>
      (emitted s' = emitted s @ [Connecting, Connected] \<or>
       emitted s' = emitted s @ [Connecting, Disconnected])) \<and>
   sanitiseToken ''ab-12_cd!'' = ''ab12cd''"
proof (intro conjI impI)
  let ?s0 = "s\<lparr>tokens := \<lparr>token_value = filter alnum t, tried = False\<rparr> # tokens s\<rparr>"
  show eq: "updateToken w fuel t s = connect w fuel ?s0"
    by (simp add: updateToken_def sanitiseToken_def)
  show "updateToken w fuel t s = Some (Returned, ?s0)" if "isConnecting s"
    using that by (simp add: eq connect_def)
  show "sanitiseToken ''ab-12_cd!'' = ''ab12cd''"
    by (simp add: sanitiseToken_def alnum_def)
  assume h: "\<not> isConnecting s \<and> updateToken w fuel t s = Some (c, s')"
  then have "connect w fuel ?s0 = Some (c, s')" and "\<not> isConnecting ?s0"
    by (simp_all add: eq)
  from connect_cycle [OF this]
  show "c = Settled (Inr ())" and "\<not> isConnecting s'"
    and "map token_value (tokens s') = filter alnum t # map token_value (tokens s)"
    and "emitted s' = emitted s @ [Connecting, Connected] \<or>
         emitted s' = emitted s @ [Connecting, Disconnected]"
    by simp_all
qed

theorem updateToken_prepends_sanitised_witness:
  "updateToken refusing 5 ''ab-12_cd!'' awaiting =
     Some (Returned,
       awaiting\<lparr>tokens := \<lparr>token_value = ''ab12cd'', tried = False\<rparr> # tokens awaiting\<rparr>) \<and>
   updateToken refusing 5 ''ab-12_cd!'' fresh = Some (Settled (Inr ()), fresh_updated) \<and>
   map token_value (tokens fresh_updated) = ''ab12cd'' # map token_value (tokens fresh) \<and>
   emitted fresh_updated = emitted fresh @ [Connecting, Disconnected]"
proof -
  have 1: "isConnecting awaiting" by code_simp
  have 2: "\<not> isConnecting fresh" by code_simp
  have 3: "updateToken refusing 5 ''ab-12_cd!'' fresh = Some (Settled (Inr ()), fresh_updated)"
    by code_simp
  have 4: "filter alnum ''ab-12_cd!'' = ''ab12cd''" by code_simp
  have 5: "emitted fresh_updated = emitted fresh @ [Connecting, Disconnected]" by code_simp
  note flight_case = updateToken_prepends_sanitised
    [of refusing 5 "''ab-12_cd!''" awaiting, unfolded 4]
  note fresh_case = updateToken_prepends_sanitised
    [of refusing 5 "''ab-12_cd!''" fresh "Settled (Inr ())" fresh_updated, unfolded 4]
  from flight_case 1
  have a: "updateToken refusing 5 ''ab-12_cd!'' awaiting =
     Some (Returned,
       awaiting\<lparr>tokens := \<lparr>token_value = ''ab12cd'', tried = False\<rparr> # tokens awaiting\<rparr>)"
    by blast
  from fresh_case 2 3
  have b: "map token_value (tokens fresh_updated) = ''ab12cd'' # map token_value (tokens fresh)"
    by blast
  from a b 3 5 show ?thesis by simp
qed

text \<open>
  \<^bold>\<open>C4\<close> as stated fails while a cycle is in flight, here the first cycle of
  \<open>fresh\<close> waiting for the transport and the ping: \<open>updateToken\<close> returns
  \<open>undefined\<close>, only the candidate list has changed, and no cycle was started.
\<close>

theorem updateToken_while_connecting_counterexample:
  "updateToken refusing 5 ''ab-12_cd!'' awaiting =
     Some (Returned,
       awaiting\<lparr>tokens := [\<lparr>token_value = ''ab12cd'', tried = False\<rparr>,
                            \<lparr>token_value = ''initial'', tried = True\<rparr>]\<rparr>) \<and>
   isConnecting awaiting \<and>
   awaiting =
     called refusing (called refusing
       (provider_updateToken ''initial'' (markTried 0 (connect_start fresh))))"
  by code_simp

text \<open>
  \<^bold>\<open>C8\<close>, as amended. The list the constructor builds has no two entries of equal
  value; \<open>connect()\<close> never changes the values in the list; \<open>updateToken(t)\<close> puts
  the sanitised \<open>t\<close> in front of them without looking for an equal entry; and at the
  start of every cycle every \<open>tried\<close> flag is false.
\<close>

theorem candidate_values:
  "distinct (map token_value (initialTokens stored nextToken)) \<and>
   tokens (init stored nextToken now) = initialTokens stored nextToken \<and>
   list_all (\<lambda>c. \<not> tried c) (tokens (connect_start s)) \<and>
   (connect w fuel s = Some (c, s') \<longrightarrow>
      map token_value (tokens s') = map token_value (tokens s)) \<and>
   (updateToken w fuel t s = Some (c, s') \<longrightarrow>
      map token_value (tokens s') = sanitiseToken t # map token_value (tokens s))"
proof (intro conjI impI)
  show "distinct (map token_value (initialTokens stored nextToken))"
    by (rule distinct_initialTokens)
  show "tokens (init stored nextToken now) = initialTokens stored nextToken"
    by (simp add: init_def)
  show "list_all (\<lambda>c. \<not> tried c) (tokens (connect_start s))"
    by (rule connect_start_untried)
  show "map token_value (tokens s') = map token_value (tokens s)"
    if "connect w fuel s = Some (c, s')"
    using that by (rule connect_values)
  show "map token_value (tokens s') = sanitiseToken t # map token_value (tokens s)"
    if "updateToken w fuel t s = Some (c, s')"
    using connect_values [OF that [unfolded updateToken_def Let_def]] by simp
qed

theorem candidate_values_witness:
  "connect refusing 3 (init None None 0) = Some (Settled (Inr ()), after_refusal) \<and>
   map token_value (tokens after_refusal) = map token_value (tokens (init None None 0)) \<and>
   distinct (map token_value (tokens (init None None 0))) \<and>
   updateToken refusing 4 ''ab-cd'' after_refusal = Some (Settled (Inr ()), after_update) \<and>
   map token_value (tokens after_update) = ''abcd'' # map token_value (tokens after_refusal)"
proof -
  have 1: "connect refusing 3 (init None None 0) = Some (Settled (Inr ()), after_refusal)"
    by code_simp
  have 2: "updateToken refusing 4 ''ab-cd'' after_refusal = Some (Settled (Inr ()), after_update)"
    by code_simp
  have 3: "sanitiseToken ''ab-cd'' = ''abcd''" by code_simp
  note a = candidate_values
    [of None None 0 "init None None 0" refusing 3 "Settled (Inr ())" after_refusal]
  note b = candidate_values
    [of None None 0 after_refusal refusing 4 "Settled (Inr ())" after_update "''ab-cd''"]
  from a 1 have "map token_value (tokens after_refusal) = map token_value (tokens (init None None 0))"
    and "distinct (map token_value (tokens (init None None 0)))"
    by simp_all
  moreover from b 2 3
  have "map token_value (tokens after_update) = ''abcd'' # map token_value (tokens after_refusal)"
    by simp
  ultimately show ?thesis using 1 2 by simp
qed

text \<open>
  \<^bold>\<open>C8\<close> as stated fails: a token given twice to \<open>updateToken\<close> is in the list twice.
\<close>

theorem duplicate_candidates_counterexample:
  "constructor refusing 3 None None 0 = Some (Settled (Inr ()), after_refusal) \<and>
   updateToken refusing 4 ''ab-cd'' after_refusal = Some (Settled (Inr ()), after_update) \<and>
   updateToken refusing 4 ''abcd'' after_update = Some (Settled (Inr ()), after_second_update) \<and>
   map token_value (tokens after_second_update) = [''abcd'', ''abcd'', ''initial''] \<and>
   \<not> distinct (map token_value (tokens after_second_update))"
  by code_simp

text \<open>
  \<^bold>\<open>C2\<close>, as amended. The list starts with \<open>A\<close>, then \<open>B\<close>. In one
  \<open>connect()\<close>: the attempt with \<open>A\<close> finds it invalid (\<open>tried_in_vain\<close> for one
  candidate: the transport refuses \<open>A\<close> while the ping answers 200, or the endpoint
  is down at first and the repeated attempt is refused, or \<open>A\<close> is the sentinel and
  no generated token is accepted); the attempt with \<open>B\<close> finds it valid; the
  readiness wait resolves, at its first call or after any number of
  \<open>NETWORK_DISABLED\<close> rounds; and the store takes the write. Then the cycle marks
  \<open>A\<close> and \<open>B\<close> tried and no other candidate, emits \<open>connecting\<close> and
  \<open>connected\<close>, logs nothing, and stores under \<open>sysuiToken\<close> the token the
  transport holds after the attempt with \<open>B\<close>: the value of \<open>B\<close> without its
  characters outside \<open>[a-zA-Z0-9]\<close>, unless that is the sentinel.
\<close>

theorem second_candidate_connects:
  assumes "tokens s = A # B # rest" and "\<not> isConnecting s"
    and "tried_in_vain w f 1 (connect_start s) = Some s2"
    and "connectWithToken w f (token_value B) (markTried 1 s2) = Some (Inr True, s4)"
    and "waitUntilNodeReady w f None s4 = Some (Inr ready, s5)"
    and "storeSet w (calls s5) = None"
    and "f + 1 < fuel"
  shows "\<exists>s'. connect w fuel s = Some (Settled (Inr ()), s') \<and>
           tokens s' = A\<lparr>tried := True\<rparr> # B\<lparr>tried := True\<rparr> #
                       map (\<lambda>c. c\<lparr>tried := False\<rparr>) rest \<and>
           emitted s' = emitted s @ [Connecting, Connected] \<and>
           sysuiToken s' = providerToken s4 \<and>
           (sanitiseToken (token_value B) \<noteq> ''initial'' \<longrightarrow>
              sysuiToken s' = Some (sanitiseToken (token_value B))) \<and>
           \<not> needsToken s' \<and> \<not> isConnecting s' \<and> errors s' = errors s"
proof -
  let ?rest = "map (\<lambda>c. c\<lparr>tried := False\<rparr>) rest"
  define s0 where "s0 = connect_start s"
  have t0: "tokens s0 = A\<lparr>tried := False\<rparr> # B\<lparr>tried := False\<rparr> # ?rest"
    using assms(1) by (simp add: s0_def connect_start_fields)
  have n0: "getNextToken s0 = Some 0"
    by (simp add: getNextToken_def t0)
  from assms(3) have "tried_in_vain w f (Suc 0) s0 = Some s2" by (simp add: s0_def)
  from tried_in_vain_Suc [OF this] n0 obtain s1 where
    "connectWithToken w f (token_value (tokens s0 ! 0)) (markTried 0 s0) = Some (Inr False, s1)"
    and "tried_in_vain w f 0 s1 = Some s2" by auto
  then have cA: "connectWithToken w f (token_value (tokens s0 ! 0)) (markTried 0 s0) = Some (Inr False, s2)"
    by simp
  from connectWithToken_tokens [OF cA]
  have t2: "tokens s2 = A\<lparr>tried := True\<rparr> # B\<lparr>tried := False\<rparr> # ?rest"
    by (simp add: markTried_def t0)
  have n2: "getNextToken s2 = Some 1"
    by (simp add: getNextToken_def t2)
  have vB: "token_value (tokens s2 ! 1) = token_value B" by (simp add: t2)
  note cyc = cycle_valid [OF assms(3) n2 assms(4) [folded vB] assms(5,7)]
  from cyc(1) have p: "priv_connect w fuel (connect_start s) = Some (Inr True, s5)" by simp
  from connect_idle [OF assms(2) p] assms(6)
  have "connect w fuel s = Some (Settled (Inr ()), settle_connected w s5)" by simp
  moreover have "tokens (settle_connected w s5) =
      A\<lparr>tried := True\<rparr> # B\<lparr>tried := True\<rparr> # ?rest"
    "emitted (settle_connected w s5) = emitted s @ [Connecting, Connected]"
    "sysuiToken (settle_connected w s5) = providerToken s4"
    "\<not> needsToken (settle_connected w s5)" "\<not> isConnecting (settle_connected w s5)"
    "errors (settle_connected w s5) = errors s"
    using cyc(2-) by (simp_all add: settle_connected_def emit_def called_def t2)
  moreover have "sysuiToken (settle_connected w s5) = Some (sanitiseToken (token_value B))"
    if "sanitiseToken (token_value B) \<noteq> ''initial''"
    using connectWithToken_holds [OF assms(4) that] cyc(7)
    by (simp add: settle_connected_def emit_def called_def)
  ultimately show ?thesis by blast
qed

text \<open>
  A manager built with \<open>a\<close> in the store and \<open>b-1\<close> as its argument, where the
  node accepts \<open>b1\<close> only and the readiness wait needs one round of 250 ms.
\<close>

theorem second_candidate_connects_witness:
  "tokens stored_and_given =
     [\<lparr>token_value = ''a'', tried = False\<rparr>, \<lparr>token_value = ''b-1'', tried = False\<rparr>,
      \<lparr>token_value = ''initial'', tried = False\<rparr>] \<and>
   netChain slow_start 4 = Inl (Err ''NETWORK_DISABLED'') \<and>
   (\<exists>s'. connect slow_start 4 stored_and_given = Some (Settled (Inr ()), s') \<and>
      tokens s' = [\<lparr>token_value = ''a'', tried = True\<rparr>, \<lparr>token_value = ''b-1'', tried = True\<rparr>,
                   \<lparr>token_value = ''initial'', tried = False\<rparr>] \<and>
      emitted s' = [Connecting, Connected] \<and>
      sysuiToken s' = Some ''b1'' \<and> \<not> needsToken s' \<and> \<not> isConnecting s') \<and>
   map_option (timers \<circ> snd) (connect slow_start 4 stored_and_given) = Some [250]"
proof -
  let ?A = "\<lparr>token_value = ''a'', tried = False\<rparr>"
  let ?B = "\<lparr>token_value = ''b-1'', tried = False\<rparr>"
  let ?I = "\<lparr>token_value = ''initial'', tried = False\<rparr>"
  let ?s2 = "the (tried_in_vain slow_start 2 1 (connect_start stored_and_given))"
  let ?s4 = "snd (the (connectWithToken slow_start 2 (token_value ?B) (markTried 1 ?s2)))"
  let ?s5 = "snd (the (waitUntilNodeReady slow_start 2 None ?s4))"
  have 1: "tokens stored_and_given = ?A # ?B # [?I]" by code_simp
  have 2: "\<not> isConnecting stored_and_given" by code_simp
  have 3: "tried_in_vain slow_start 2 1 (connect_start stored_and_given) = Some ?s2"
    by code_simp
  have 4: "connectWithToken slow_start 2 (token_value ?B) (markTried 1 ?s2) = Some (Inr True, ?s4)"
    by code_simp
  have 5: "waitUntilNodeReady slow_start 2 None ?s4 = Some (Inr True, ?s5)"
    by code_simp
  have 6: "storeSet slow_start (calls ?s5) = None" by code_simp
  have 7: "sanitiseToken ''b-1'' = ''b1''" "''b1'' \<noteq> ''initial''"
    "emitted stored_and_given = []" "netChain slow_start 4 = Inl (Err ''NETWORK_DISABLED'')"
    "map_option (timers \<circ> snd) (connect slow_start 4 stored_and_given) = Some [250]"
    by code_simp+
  from second_candidate_connects [OF 1 2 3 4 5 6, of 4] 7
  have "\<exists>s'. connect slow_start 4 stored_and_given = Some (Settled (Inr ()), s') \<and>
      tokens s' = [\<lparr>token_value = ''a'', tried = True\<rparr>, \<lparr>token_value = ''b-1'', tried = True\<rparr>,
                   \<lparr>token_value = ''initial'', tried = False\<rparr>] \<and>
      emitted s' = [Connecting, Connected] \<and>
      sysuiToken s' = Some ''b1'' \<and> \<not> needsToken s' \<and> \<not> isConnecting s'"
    by auto
  with 1 7 show ?thesis by simp
qed

text \<open>
  \<^bold>\<open>C2\<close> as stated fails on two lists of two candidates. A manager built with
  \<open>initial\<close> in the store and \<open>b-1\<close> as its argument, where the node accepts
  \<open>b1\<close> only, connects with its second candidate and stores \<open>b1\<close>, which is not
  that candidate's value. A manager built with \<open>a\<close> in the store and no argument,
  where the node accepts the sentinel and the generated token, connects with its
  second candidate, the sentinel, and stores the generated token \<open>g1\<close>.
\<close>

theorem persisted_token_counterexample:
  "map_option (\<lambda>(c, s'). (c, tokens s', emitted s', sysuiToken s'))
     (constructor (accepting [''b1'']) 3 (Some ''initial'') (Some ''b-1'') 0) =
     Some (Settled (Inr ()),
       [\<lparr>token_value = ''initial'', tried = True\<rparr>, \<lparr>token_value = ''b-1'', tried = True\<rparr>],
       [Connecting, Connected], Some ''b1'') \<and>
   Some ''b1'' \<noteq> Some ''b-1'' \<and>
   map_option (\<lambda>(c, s'). (c, tokens s', emitted s', sysuiToken s'))
     (constructor (accepting [''initial'', ''g1'']) 5 (Some ''a'') None 0) =
     Some (Settled (Inr ()),
       [\<lparr>token_value = ''a'', tried = True\<rparr>, \<lparr>token_value = ''initial'', tried = True\<rparr>],
       [Connecting, Connected], Some ''g1'') \<and>
   Some ''g1'' \<noteq> Some ''initial''"
  by code_simp

text \<open>
  \<^bold>\<open>C6.\<close> A single-candidate attempt with the token \<open>t\<close> is started in
  \<open>s\<close>; the transport's connect (call \<open>calls s\<close>) is rejected and the ping (call
  \<open>calls s + 1\<close>) does not answer 200.
  \<^item> However the attempt settles, it has left the candidate list as it was, its
    first timer had the delay \<open>transport.retryTimeout\<close> (read as call
    \<open>calls s + 2\<close>), the clock moved by that delay at least, and the first two
    tokens it pushed to the transport are both the sanitised \<open>t\<close>: the same
    candidate was tried again, after the timer, with two further calls at least.
  \<^item> If the repeated connect (call \<open>calls s + 3\<close>) succeeds and the token is not
    the sentinel, the attempt finds the candidate valid after exactly one timer.
  \<^item> If the repeated connect is rejected and the ping (call \<open>calls s + 4\<close>) now
    answers 200, the attempt finds the candidate invalid after exactly one timer.
  \<^item> If every connect with this token is rejected and the ping never answers 200,
    the attempt does not settle, whatever the number of invocations.
\<close>

theorem unreachable_retries_same_candidate:
  assumes "providerConnect w (calls s) (sanitiseToken t) = Inl e"
    and "\<not> isNodeUp w (calls s + 1)"
  shows
   "(connectWithToken w fuel t s = Some (r, s') \<longrightarrow>
       tokens s' = tokens s \<and>
       take (length (timers s) + 1) (timers s') = timers s @ [retryTimeout w (calls s + 2)] \<and>
       take (length (pushed s) + 2) (pushed s') =
         pushed s @ [sanitiseToken t, sanitiseToken t] \<and>
       calls s + 5 \<le> calls s' \<and>
       clock s + nat (retryTimeout w (calls s + 2)) \<le> clock s') \<and>
    (providerConnect w (calls s + 3) (sanitiseToken t) = Inr () \<and>
     sanitiseToken t \<noteq> ''initial'' \<longrightarrow>
       (\<exists>s'. connectWithToken w (Suc (Suc fuel)) t s = Some (Inr True, s') \<and>
          tokens s' = tokens s \<and>
          timers s' = timers s @ [retryTimeout w (calls s + 2)] \<and>
          pushed s' = pushed s @ [sanitiseToken t, sanitiseToken t] \<and>
          providerToken s' = Some (sanitiseToken t) \<and>
          calls s' = calls s + 5)) \<and>
    (providerConnect w (calls s + 3) (sanitiseToken t) = Inl e' \<and>
     isNodeUp w (calls s + 4) \<longrightarrow>
       (\<exists>s'. connectWithToken w (Suc (Suc fuel)) t s = Some (Inr False, s') \<and>
          tokens s' = tokens s \<and>
          timers s' = timers s @ [retryTimeout w (calls s + 2)] \<and>
          pushed s' = pushed s @ [sanitiseToken t, sanitiseToken t] \<and>
          calls s' = calls s + 5)) \<and>
    ((\<forall>k. isl (providerConnect w k (sanitiseToken t))) \<and> (\<forall>k. \<not> isNodeUp w k) \<longrightarrow>
       connectWithToken w fuel t s = None)"
proof -
  define tok where "tok = sanitiseToken t"
  define rt where "rt = retryTimeout w (calls s + 2)"
  define s5 where "s5 = setTimeout w rt (called w (called w (provider_updateToken tok s)))"
  define s8 where "s8 = called w (called w (provider_updateToken tok s5))"
  have idem: "sanitiseToken tok = tok" by (simp add: tok_def sanitiseToken_idem)
  have retry: "connectWithToken w (Suc n) t s = connectWithToken w n tok s5" for n
    unfolding tok_def s5_def rt_def by (rule connectWithToken_retry [OF assms])
  have c5: "calls s5 = calls s + 3"
    by (simp add: s5_def attempt_state_simps)
  have f8: "tokens s8 = tokens s" "timers s8 = timers s @ [rt]"
    "pushed s8 = pushed s @ [tok, tok]" "calls s8 = calls s + 5"
    "clock s + nat rt \<le> clock s8" "providerToken s8 = Some tok"
    by (simp_all add: s8_def s5_def called_def provider_updateToken_def setTimeout_def)
  have settled: "tokens s' = tokens s \<and>
       take (length (timers s) + 1) (timers s') = timers s @ [rt] \<and>
       take (length (pushed s) + 2) (pushed s') = pushed s @ [tok, tok] \<and>
       calls s + 5 \<le> calls s' \<and> clock s + nat rt \<le> clock s'"
    if h: "connectWithToken w fuel t s = Some (r, s')"
  proof -
    from h obtain f where f: "fuel = Suc f" by (cases fuel) auto
    from h have h': "connectWithToken w f tok s5 = Some (r, s')"
      unfolding f by (simp only: retry)
    from connectWithToken_after_calls [OF steps_continues h']
    have c: "continues s8 s'" by (simp add: idem s8_def)
    then have "take (length (timers s8)) (timers s') = timers s8"
      "take (length (pushed s8)) (pushed s') = pushed s8"
      "calls s8 \<le> calls s'" "clock s8 \<le> clock s'"
      by (simp_all add: continues_def)
    with f8 connectWithToken_tokens [OF h] show ?thesis by simp
  qed
  have accepted: "\<exists>s'. connectWithToken w (Suc (Suc fuel)) t s = Some (Inr True, s') \<and>
          tokens s' = tokens s \<and> timers s' = timers s @ [rt] \<and>
          pushed s' = pushed s @ [tok, tok] \<and> providerToken s' = Some tok \<and>
          calls s' = calls s + 5"
    if a: "providerConnect w (calls s + 3) tok = Inr () \<and> tok \<noteq> ''initial''"
  proof -
    from a have "providerConnect w (calls s5) (sanitiseToken tok) = Inr ()"
      and "sanitiseToken tok \<noteq> ''initial''"
      by (simp_all add: idem c5)
    then have "connectWithToken w (Suc fuel) tok s5 =
        Some (Inr True, called w (called w (provider_updateToken (sanitiseToken tok) s5)))"
      by (rule connectWithToken_accepted)
    then have "connectWithToken w (Suc fuel) tok s5 = Some (Inr True, s8)"
      by (simp only: idem s8_def)
    then have "connectWithToken w (Suc (Suc fuel)) t s = Some (Inr True, s8)"
      by (simp only: retry)
    with f8 show ?thesis by blast
  qed
  have refused: "\<exists>s'. connectWithToken w (Suc (Suc fuel)) t s = Some (Inr False, s') \<and>
          tokens s' = tokens s \<and> timers s' = timers s @ [rt] \<and>
          pushed s' = pushed s @ [tok, tok] \<and> calls s' = calls s + 5"
    if a: "providerConnect w (calls s + 3) tok = Inl e' \<and> isNodeUp w (calls s + 4)"
  proof -
    from a have "providerConnect w (calls s5) (sanitiseToken tok) = Inl e'"
      and "isNodeUp w (Suc (calls s5))"
      by (simp_all add: idem c5 eval_nat_numeral)
    then have "connectWithToken w (Suc fuel) tok s5 =
        Some (Inr False, called w (called w (provider_updateToken (sanitiseToken tok) s5)))"
      by (rule connectWithToken_refused)
    then have "connectWithToken w (Suc fuel) tok s5 = Some (Inr False, s8)"
      by (simp only: idem s8_def)
    then have "connectWithToken w (Suc (Suc fuel)) t s = Some (Inr False, s8)"
      by (simp only: retry)
    with f8 show ?thesis by blast
  qed
  have never: "connectWithToken w fuel t s = None"
    if "(\<forall>k. isl (providerConnect w k tok)) \<and> (\<forall>k. \<not> isNodeUp w k)"
    using that by (intro connectWithToken_never [where tok = tok]) (simp_all add: tok_def)
  from settled accepted refused never show ?thesis
    unfolding tok_def rt_def by blast
qed

text \<open>
  The three worlds \<open>waking\<close>, \<open>warming\<close> and \<open>unreachable\<close>, one for each
  of the three ways on.
\<close>

theorem unreachable_retries_same_candidate_witness:
  "providerConnect waking (calls fresh) (sanitiseToken ''tok-1'') = Inl (Err ''close'') \<and>
   \<not> isNodeUp waking (calls fresh + 1) \<and>
   connectWithToken waking 2 ''tok-1'' fresh = Some (Inr True, woken) \<and>
   tokens woken = tokens fresh \<and> timers woken = [1000] \<and>
   pushed woken = [''tok1'', ''tok1''] \<and> calls woken = 5 \<and> clock woken = 1000 \<and>
   (\<exists>s'. connectWithToken waking 2 ''tok-1'' fresh = Some (Inr True, s') \<and>
      tokens s' = tokens fresh \<and> timers s' = [1000] \<and> pushed s' = [''tok1'', ''tok1''] \<and>
      providerToken s' = Some ''tok1'' \<and> calls s' = 5) \<and>
   (\<exists>s'. connectWithToken warming 2 ''tok-1'' fresh = Some (Inr False, s') \<and>
      tokens s' = tokens fresh \<and> timers s' = [1000] \<and> pushed s' = [''tok1'', ''tok1'']) \<and>
   connectWithToken unreachable 9 ''tok-1'' fresh = None"
proof -
  have 1: "providerConnect waking (calls fresh) (sanitiseToken ''tok-1'') = Inl (Err ''close'')"
    "providerConnect warming (calls fresh) (sanitiseToken ''tok-1'') = Inl (Err ''close'')"
    "providerConnect unreachable (calls fresh) (sanitiseToken ''tok-1'') = Inl (Err ''close'')"
    by code_simp+
  have 2: "\<not> isNodeUp waking (calls fresh + 1)" "\<not> isNodeUp warming (calls fresh + 1)"
    "\<not> isNodeUp unreachable (calls fresh + 1)"
    by code_simp+
  have 3: "connectWithToken waking 2 ''tok-1'' fresh = Some (Inr True, woken)"
    by code_simp
  have 4: "timers woken = [1000]" "pushed woken = [''tok1'', ''tok1'']" "calls woken = 5"
    "clock woken = 1000" "timers fresh = []" "pushed fresh = []"
    "sanitiseToken ''tok-1'' = ''tok1''" "retryTimeout warming (calls fresh + 2) = 1000"
    by code_simp+
  have rt: "retryTimeout warming k = 1000" "retryTimeout waking k = 1000" for k
    by (simp_all add: warming_def waking_def refusing_def)
  have 7: "providerConnect waking (calls fresh + 3) (sanitiseToken ''tok-1'') = Inr () \<and>
     sanitiseToken ''tok-1'' \<noteq> ''initial''" "calls fresh = 0"
    by code_simp+
  have 5: "providerConnect warming (calls fresh + 3) (sanitiseToken ''tok-1'') = Inl (Err ''close'') \<and>
     isNodeUp warming (calls fresh + 4)"
    by code_simp
  have 6: "(\<forall>k. isl (providerConnect unreachable k (sanitiseToken ''tok-1''))) \<and>
     (\<forall>k. \<not> isNodeUp unreachable k)"
    by (simp add: unreachable_def refusing_def isNodeUp_def)
  from unreachable_retries_same_candidate [OF 1(1) 2(1), of 2 "Inr True" woken] 3
  have a: "tokens woken = tokens fresh" by blast
  from unreachable_retries_same_candidate
    [OF 1(2) 2(2), where fuel = 0 and e' = "Err ''close''"] 5
  have b: "\<exists>s'. connectWithToken warming 2 ''tok-1'' fresh = Some (Inr False, s') \<and>
      tokens s' = tokens fresh \<and> timers s' = [1000] \<and> pushed s' = [''tok1'', ''tok1'']"
    by (simp add: 4 rt numeral_2_eq_2 del: connectWithToken.simps) blast
  from unreachable_retries_same_candidate [OF 1(3) 2(3), of 9] 6
  have c: "connectWithToken unreachable 9 ''tok-1'' fresh = None" by blast
  from unreachable_retries_same_candidate [OF 1(1) 2(1), where fuel = 0] 7
  have d: "\<exists>s'. connectWithToken waking 2 ''tok-1'' fresh = Some (Inr True, s') \<and>
      tokens s' = tokens fresh \<and> timers s' = [1000] \<and> pushed s' = [''tok1'', ''tok1''] \<and>
      providerToken s' = Some ''tok1'' \<and> calls s' = 5"
    by (simp add: 4 rt numeral_2_eq_2 del: connectWithToken.simps)
  from 1 2 3 4 a b c d show ?thesis by simp
qed




text \<open>
  \<^bold>\<open>C3.\<close> A cycle is started by \<open>connect()\<close> on a manager that is not
  connecting, and every candidate of its list is tried in turn and found invalid
  (\<open>tried_in_vain\<close> for as many candidates as the list has, which for the empty
  list says nothing); one case of this is a transport that refuses every token while
  the ping answers 200. Then the cycle settles, given fuel for the attempts: the
  promise resolves, every candidate is marked tried, \<open>needsToken\<close> is true,
  \<open>isConnecting\<close> is false again, the events are \<open>connecting\<close>, then
  \<open>disconnected\<close>, nothing is logged and nothing is stored.
\<close>

theorem exhausted_candidates_disconnect:
  assumes "\<not> isConnecting s"
    and "tried_in_vain w f (length (tokens s)) (connect_start s) = Some s1 \<and>
           f + length (tokens s) \<le> fuel \<or>
         (\<forall>k t. isl (providerConnect w k t)) \<and> (\<forall>k. isNodeUp w k)"
    and "length (tokens s) < fuel"
  shows "\<exists>s'. connect w fuel s = Some (Settled (Inr ()), s') \<and>
           \<not> isConnecting s' \<and> needsToken s' \<and>
           emitted s' = emitted s @ [Connecting, Disconnected] \<and>
           list_all tried (tokens s') \<and>
           map token_value (tokens s') = map token_value (tokens s) \<and>
           errors s' = errors s \<and> sysuiToken s' = sysuiToken s"
proof (rule disjE [OF assms(2)])
  assume "tried_in_vain w f (length (tokens s)) (connect_start s) = Some s1 \<and>
           f + length (tokens s) \<le> fuel"
  then show ?thesis
    using cycle_exhausted [OF assms(1) _ _ assms(3)] by blast
next
  assume w: "(\<forall>k t. isl (providerConnect w k t)) \<and> (\<forall>k. isNodeUp w k)"
  then obtain s0 where "tried_in_vain w 1 (length (tokens s)) (connect_start s) = Some s0"
    using tried_in_vain_refusing [of w "length (tokens s)" "connect_start s"]
    by (auto simp: connect_start_fields)
  moreover from assms(3) have "1 + length (tokens s) \<le> fuel" by simp
  ultimately show ?thesis
    using cycle_exhausted [OF assms(1) _ _ assms(3)] by blast
qed

text \<open>
  Three candidates refused; an empty list; and the single candidate \<open>initial\<close>
  found invalid in three other ways: the signer fails, the generated token is
  refused, the endpoint is down at first and refuses the token once it is up.
\<close>

theorem exhausted_candidates_disconnect_witness:
  "(\<exists>s'. connect refusing 4 (init (Some ''a'') (Some ''b'') 0) = Some (Settled (Inr ()), s') \<and>
      \<not> isConnecting s' \<and> needsToken s' \<and> emitted s' = [Connecting, Disconnected] \<and>
      list_all tried (tokens s') \<and> map token_value (tokens s') = [''a'', ''b'', ''initial'']) \<and>
   (\<exists>s'. connect no_signer 1 no_candidates = Some (Settled (Inr ()), s') \<and>
      \<not> isConnecting s' \<and> needsToken s' \<and> emitted s' = [Connecting, Disconnected]) \<and>
   (\<exists>s'. connect no_signer 3 fresh = Some (Settled (Inr ()), s') \<and>
      \<not> isConnecting s' \<and> needsToken s' \<and> emitted s' = [Connecting, Disconnected] \<and>
      list_all tried (tokens s') \<and> errors s' = []) \<and>
   (\<exists>s'. connect direct_only 4 fresh = Some (Settled (Inr ()), s') \<and>
      \<not> isConnecting s' \<and> needsToken s' \<and> emitted s' = [Connecting, Disconnected] \<and>
      list_all tried (tokens s') \<and> errors s' = []) \<and>
   (\<exists>s'. connect warming 3 fresh = Some (Settled (Inr ()), s') \<and>
      \<not> isConnecting s' \<and> needsToken s' \<and> emitted s' = [Connecting, Disconnected] \<and>
      list_all tried (tokens s') \<and> errors s' = [])"
proof -
  let ?s = "init (Some ''a'') (Some ''b'') 0"
  let ?n = "the (tried_in_vain no_signer 2 1 (connect_start fresh))"
  let ?d = "the (tried_in_vain direct_only 3 1 (connect_start fresh))"
  let ?w = "the (tried_in_vain warming 2 1 (connect_start fresh))"
  have 1: "\<not> isConnecting ?s" "\<not> isConnecting no_candidates" "\<not> isConnecting fresh"
    by code_simp+
  have 2: "(\<forall>k t. isl (providerConnect refusing k t)) \<and> (\<forall>k. isNodeUp refusing k)"
    by (simp add: refusing_def isNodeUp_def)
  have 3: "length (tokens ?s) = 3" "length (tokens no_candidates) = 0"
    "length (tokens fresh) = 1"
    by code_simp+
  have 4: "emitted ?s = []" "map token_value (tokens ?s) = [''a'', ''b'', ''initial'']"
    "emitted no_candidates = []" "emitted fresh = []" "errors fresh = []"
    by code_simp+
  have 5: "tried_in_vain no_signer 0 0 (connect_start no_candidates) = Some (connect_start no_candidates)"
    by simp
  have 6: "tried_in_vain no_signer 2 1 (connect_start fresh) = Some ?n"
    "tried_in_vain direct_only 3 1 (connect_start fresh) = Some ?d"
    "tried_in_vain warming 2 1 (connect_start fresh) = Some ?w"
    by code_simp+
  from exhausted_candidates_disconnect [of ?s refusing _ _ 4] 1 2 3
  have a: "\<exists>s'. connect refusing 4 ?s = Some (Settled (Inr ()), s') \<and>
      \<not> isConnecting s' \<and> needsToken s' \<and> emitted s' = [Connecting, Disconnected] \<and>
      list_all tried (tokens s') \<and> map token_value (tokens s') = [''a'', ''b'', ''initial'']"
    by (auto simp: 4)
  from exhausted_candidates_disconnect
    [of no_candidates no_signer 0 "connect_start no_candidates" 1] 1 3 5
  have b: "\<exists>s'. connect no_signer 1 no_candidates = Some (Settled (Inr ()), s') \<and>
      \<not> isConnecting s' \<and> needsToken s' \<and> emitted s' = [Connecting, Disconnected]"
    by (auto simp: 4)
  from exhausted_candidates_disconnect [of fresh no_signer 2 ?n 3] 1 3 6
  have c: "\<exists>s'. connect no_signer 3 fresh = Some (Settled (Inr ()), s') \<and>
      \<not> isConnecting s' \<and> needsToken s' \<and> emitted s' = [Connecting, Disconnected] \<and>
      list_all tried (tokens s') \<and> errors s' = []"
    by (auto simp: 4)
  from exhausted_candidates_disconnect [of fresh direct_only 3 ?d 4] 1 3 6
  have d: "\<exists>s'. connect direct_only 4 fresh = Some (Settled (Inr ()), s') \<and>
      \<not> isConnecting s' \<and> needsToken s' \<and> emitted s' = [Connecting, Disconnected] \<and>
      list_all tried (tokens s') \<and> errors s' = []"
    by (auto simp: 4)
  from exhausted_candidates_disconnect [of fresh warming 2 ?w 3] 1 3 6
  have e: "\<exists>s'. connect warming 3 fresh = Some (Settled (Inr ()), s') \<and>
      \<not> isConnecting s' \<and> needsToken s' \<and> emitted s' = [Connecting, Disconnected] \<and>
      list_all tried (tokens s') \<and> errors s' = []"
    by (auto simp: 4)
  from a b c d e show ?thesis by blast
qed

text \<open>
  \<^bold>\<open>C5.\<close> The readiness wait is started without an argument in \<open>s\<close>; every
  node-status call it makes (calls number \<open>calls s + 3 * k\<close>) fails with
  \<open>NETWORK_DISABLED\<close> and every value of \<open>Math.random()\<close> it draws is in
  \<open>[0, 1)\<close>. Then it resolves with \<open>true\<close>, given fuel for 121 invocations: it
  neither rejects nor goes on for ever. It has run \<open>n\<close> rounds, between 1 and 120,
  of three calls each; the timers it set are the \<open>n\<close> delays
  \<open>Math.floor(250 + (500 * Math.random()))\<close> of these rounds, each between 250 and
  750 ms; the clock moved by the durations of the rounds, which add up to 30000 ms or
  more, while those of the rounds before the last add up to less: the wait ends at
  the first check made once the 30 seconds are over. The fields of the manager and
  the transport are as they were. The clock of the model does not run backwards and
  its timers do not fire early.
\<close>

theorem readiness_wait_ends:
  assumes "\<forall>k. netChain w (calls s + 3 * k) = Inl (Err ''NETWORK_DISABLED'')"
    and "\<forall>k. 0 \<le> random w (calls s + 3 * k + 1) \<and> random w (calls s + 3 * k + 1) < 1"
    and "121 \<le> fuel"
  shows "\<exists>s' n. waitUntilNodeReady w fuel None s = Some (Inr True, s') \<and>
           0 < n \<and> n \<le> 120 \<and> calls s' = calls s + 3 * n \<and>
           timers s' = timers s @ map (\<lambda>i. round_delay w (calls s + 3 * i)) [0..<n] \<and>
           list_all (\<lambda>d. 250 \<le> d \<and> d \<le> 750)
             (map (\<lambda>i. round_delay w (calls s + 3 * i)) [0..<n]) \<and>
           clock s' = clock s + (\<Sum>i<n. round_duration w (calls s + 3 * i)) \<and>
           (\<Sum>i<n - 1. round_duration w (calls s + 3 * i)) < 30000 \<and>
           30000 \<le> (\<Sum>i<n. round_duration w (calls s + 3 * i)) \<and>
           unchanged s s' \<and> providerToken s' = providerToken s \<and> pushed s' = pushed s"
proof -
  from assms(3) obtain f where f: "fuel = Suc f" by (cases fuel) auto
  have eq: "waitUntilNodeReady w fuel None s = waitUntilNodeReady w fuel (Some 30000) s"
    unfolding f by simp
  have rng: "250 \<le> round_delay w (calls s + 3 * k) \<and> round_delay w (calls s + 3 * k) \<le> 750"
    for k
    using assms(2) backoff_range [of "random w (calls s + 3 * k + 1)"]
    by (simp add: round_delay_def)
  then have lo: "\<forall>k. 250 \<le> round_delay w (calls s + 3 * k)" by blast
  from assms(3) have "(0::int) < 30000" "30000 \<le> 250 * (int fuel - 1)" by simp_all
  from waitUntilNodeReady_rounds [OF assms(1) lo this] obtain s' n where
    r: "waitUntilNodeReady w fuel (Some 30000) s = Some (Inr True, s')"
    and n: "0 < n" and cs: "calls s' = calls s + 3 * n"
    and ts: "timers s' = timers s @ map (\<lambda>i. round_delay w (calls s + 3 * i)) [0..<n]"
    and ks: "clock s' = clock s + (\<Sum>i<n. round_duration w (calls s + 3 * i))"
    and before: "int (\<Sum>i<n - 1. round_duration w (calls s + 3 * i)) < 30000"
    and after: "30000 \<le> int (\<Sum>i<n. round_duration w (calls s + 3 * i))"
    by blast
  from before have before': "(\<Sum>i<n - 1. round_duration w (calls s + 3 * i)) < 30000"
    by linarith
  from after have after': "30000 \<le> (\<Sum>i<n. round_duration w (calls s + 3 * i))"
    by linarith
  from round_duration_sum_ge [OF lo, of "n - 1"] before' have "250 * (n - 1) < 30000"
    by linarith
  with n have "n \<le> 120" by simp
  moreover have "list_all (\<lambda>d. 250 \<le> d \<and> d \<le> 750)
             (map (\<lambda>i. round_delay w (calls s + 3 * i)) [0..<n])"
    using rng by (simp add: list_all_iff)
  moreover from waitUntilNodeReady_unchanged [OF r] have "unchanged s s'" .
  moreover from waitUntilNodeReady_transport [OF r]
  have "providerToken s' = providerToken s" "pushed s' = pushed s" by simp_all
  ultimately show ?thesis
    using r n cs ts ks before' after' unfolding eq
    by (intro exI [of _ s'] exI [of _ n]) simp
qed

text \<open>
  In the world \<open>initialising\<close> every delay is 500 ms and nothing else takes time:
  the wait ends after 60 rounds. The four values of \<open>backoff\<close> show the rounding:
  over the reals the third would be 334 and the last 749.
\<close>

theorem readiness_wait_ends_witness:
  "(\<forall>k. netChain initialising (calls fresh + 3 * k) = Inl (Err ''NETWORK_DISABLED'')) \<and>
   (\<forall>k. 0 \<le> random initialising (calls fresh + 3 * k + 1) \<and>
        random initialising (calls fresh + 3 * k + 1) < 1) \<and>
   (\<exists>s'. waitUntilNodeReady initialising 121 None fresh = Some (Inr True, s') \<and>
      calls s' = 180 \<and> timers s' = replicate 60 500 \<and> clock s' = 30000) \<and>
   backoff 0 = 250 \<and> backoff (1 / 2) = 500 \<and>
   backoff (765611936652984 / 2 ^ 52) = 335 \<and> backoff (1 - 1 / 2 ^ 53) = 750"
proof -
  have 1: "\<forall>k. netChain initialising (calls fresh + 3 * k) = Inl (Err ''NETWORK_DISABLED'')"
    by (simp add: initialising_def)
  have 2: "\<forall>k. 0 \<le> random initialising (calls fresh + 3 * k + 1) \<and>
        random initialising (calls fresh + 3 * k + 1) < 1"
    by (simp add: initialising_def)
  have 3: "clock fresh = 0" "timers fresh = []" "calls fresh = 0"
    by (simp_all add: fresh_def init_def)
  have 4: "backoff 0 = 250" "backoff (1 / 2) = 500"
    "backoff (765611936652984 / 2 ^ 52) = 335" "backoff (1 - 1 / 2 ^ 53) = 750"
    by code_simp+
  have d: "round_delay initialising c = 500" for c
    by (simp add: round_delay_def initialising_def 4)
  have u: "round_duration initialising c = 500" for c
    by (simp add: round_duration_def d) (simp add: initialising_def refusing_def)
  from readiness_wait_ends [OF 1 2, of 121] obtain s' n where
    r: "waitUntilNodeReady initialising 121 None fresh = Some (Inr True, s')"
    and cs: "calls s' = calls fresh + 3 * n"
    and ts: "timers s' = timers fresh @ map (\<lambda>i. round_delay initialising (calls fresh + 3 * i)) [0..<n]"
    and ks: "clock s' = clock fresh + (\<Sum>i<n. round_duration initialising (calls fresh + 3 * i))"
    and before: "(\<Sum>i<n - 1. round_duration initialising (calls fresh + 3 * i)) < 30000"
    and after: "30000 \<le> (\<Sum>i<n. round_duration initialising (calls fresh + 3 * i))"
    by auto
  from before after have "n = 60" by (simp add: u)
  with cs ts ks have "calls s' = 180" "timers s' = replicate 60 500" "clock s' = 30000"
    by (simp_all add: 3 d u map_replicate_const)
  with r 1 2 4 show ?thesis by blast
qed




end
